theory Spec2Isabelle
  imports Main "HOL-Library.AList"
begin

section \<open>JSON documents and paths\<close>

text \<open>
  The state machine of \<^verbatim>\<open>src/backend/orchestration/index.ts\<close> passes one JSON document
  from state to state. An object is an association list, so that the order of its keys
  and the keys it has are both visible; the document of an execution is always an object.
\<close>

datatype json =
    JNull
  | JBool bool
  | JNum int
  | JStr string
  | JArr "json list"
  | JObj "(string \<times> json) list"

type_synonym document = "(string \<times> json) list"

text \<open>A reference path such as \<^verbatim>\<open>$.DocGen[0].error\<close>: keys and array indices after \<^verbatim>\<open>$\<close>.\<close>

datatype segment = Key string | Index nat

type_synonym path = "segment list"

fun select :: "path \<Rightarrow> json \<Rightarrow> json option" where
  "select [] j = Some j"
| "select (Key k # p) (JObj kvs) =
     (case map_of kvs k of None \<Rightarrow> None | Some v \<Rightarrow> select p v)"
| "select (Index i # p) (JArr xs) =
     (if i < length xs then select p (xs ! i) else None)"
| "select p j = None"

text \<open>\<^verbatim>\<open>resultPath: '$.key'\<close>: the result is stored in the state's input under one key,
  replacing what was there.\<close>

definition resultPath :: "string \<Rightarrow> json \<Rightarrow> document \<Rightarrow> document" where
  "resultPath k v doc = AList.update k v doc"

text \<open>The conditions of the two \<^verbatim>\<open>Choice\<close> states.\<close>

datatype condition =
    Condition_isPresent path
  | Condition_isNotPresent path
  | Condition_or "condition list"

fun holds :: "condition \<Rightarrow> json \<Rightarrow> bool" where
  "holds (Condition_isPresent p) j = (select p j \<noteq> None)"
| "holds (Condition_isNotPresent p) j = (select p j = None)"
| "holds (Condition_or cs) j = list_ex (\<lambda>c. holds c j) cs"

section \<open>The collaborators of an execution\<close>

datatype DocumentationLanguage = PYTHON | TYPESCRIPT

definition SUPPORTED_LANGUAGES :: "DocumentationLanguage list" where
  "SUPPORTED_LANGUAGES = [PYTHON, TYPESCRIPT]"

text \<open>A failed task invocation, as the engine reports it: an error name and the raw
  failure text.\<close>

datatype task_error = TaskError (Error: string) (Cause: string)

text \<open>The context object \<^verbatim>\<open>$$.Execution\<close>, with the four fields the first state reads.\<close>

record execution_info =
  exec_Id :: string
  exec_Name :: string
  exec_RoleArn :: string
  exec_StartTime :: string

text \<open>
  What the definition of the state machine does not decide: the context object of an
  execution, the outcome of the \<open>k\<close>-th invocation (from 0) of each Lambda function on a
  given input, the intrinsic \<^verbatim>\<open>States.StringToJson\<close>, which has no result on a text that
  is not JSON, and the text of each language, which \<^verbatim>\<open>../shared/language\<close> declares and
  the sources do not show.
\<close>

record env =
  Execution :: execution_info
  LanguageText :: "DocumentationLanguage \<Rightarrow> string"
  Transliterator :: "DocumentationLanguage \<Rightarrow> nat \<Rightarrow> document \<Rightarrow> task_error + json"
  CatalogBuilder :: "nat \<Rightarrow> document \<Rightarrow> task_error + json"
  StringToJson :: "string \<Rightarrow> json option"

section \<open>Retry and catch\<close>

text \<open>The properties given to \<^verbatim>\<open>addRetry\<close>; a property the source leaves out is \<open>None\<close>.\<close>

record RetryProps =
  errors :: "string list option"
  interval :: "nat option"
  maxAttempts :: "nat option"

text \<open>Line 120: \<^verbatim>\<open>.addRetry({ interval: Duration.seconds(30) })\<close>.\<close>

definition docGenRetry :: RetryProps where
  "docGenRetry = \<lparr>errors = None, interval = Some 30, maxAttempts = None\<rparr>"

text \<open>Line 81: \<^verbatim>\<open>.addRetry({ errors: ['Lambda.TooManyRequestsException'],
  interval: Duration.seconds(30), maxAttempts: 5 })\<close>.\<close>

definition addToCatalogRetry :: RetryProps where
  "addToCatalogRetry =
     \<lparr>errors = Some [''Lambda.TooManyRequestsException''], interval = Some 30,
      maxAttempts = Some 5\<rparr>"

text \<open>
  A \<^verbatim>\<open>tasks.LambdaInvoke\<close> state is created with a retrier of its own, before any
  \<^verbatim>\<open>addRetry\<close> of the source: unless the source sets \<^verbatim>\<open>retryOnServiceExceptions\<close> to
  false, and lines 72-79 and 111-119 do not, the library adds a retrier for three
  service errors of Lambda, with an interval of 2 seconds, 6 retries and a backoff
  rate of 2.
\<close>

definition lambdaInvokeRetry :: RetryProps where
  "lambdaInvokeRetry =
     \<lparr>errors = Some [''Lambda.ServiceException'', ''Lambda.AWSLambdaException'',
                     ''Lambda.SdkClientException''],
      interval = Some 2, maxAttempts = Some 6\<rparr>"

text \<open>The defaults of a retrier: every error (\<^verbatim>\<open>States.ALL\<close>), three retries.\<close>

definition retryErrors :: "RetryProps \<Rightarrow> string list" where
  "retryErrors p = (case errors p of None \<Rightarrow> [''States.ALL''] | Some es \<Rightarrow> es)"

definition retryLimit :: "RetryProps \<Rightarrow> nat" where
  "retryLimit p = (case maxAttempts p of None \<Rightarrow> 3 | Some n \<Rightarrow> n)"

definition errorEquals :: "string list \<Rightarrow> string \<Rightarrow> bool" where
  "errorEquals names e = (''States.ALL'' \<in> set names \<or> e \<in> set names)"

text \<open>A retrier at work: the errors it names and the retries it still allows
  (\<^verbatim>\<open>MaxAttempts\<close> bounds the retries, not the invocations).\<close>

type_synonym retrier = "string list \<times> nat"

definition retrier :: "RetryProps \<Rightarrow> retrier" where
  "retrier p = (retryErrors p, retryLimit p)"

text \<open>
  An error is handled by the first retrier of the state that names it. When that one
  has a retry left, it loses one and the task is invoked again; when it has none,
  there is no retry, whatever the retriers after it say. An error that no retrier names
  is not retried.
\<close>

fun useRetrier :: "retrier list \<Rightarrow> string \<Rightarrow> retrier list option" where
  "useRetrier [] e = None"
| "useRetrier ((names, left) # rs) e =
     (if errorEquals names e
      then (case left of 0 \<Rightarrow> None | Suc n \<Rightarrow> Some ((names, n) # rs))
      else map_option (Cons (names, left)) (useRetrier rs e))"

text \<open>
  A task under its retriers. \<open>invoke k\<close> is the outcome of invocation \<open>k\<close> (from 0). The
  result is the last outcome and the number of invocations made.
\<close>

function retryLoop ::
  "retrier list \<Rightarrow> (nat \<Rightarrow> task_error + 'a) \<Rightarrow> nat \<Rightarrow> (task_error + 'a) \<times> nat" where
  "retryLoop rs invoke k =
     (case invoke k of
        Inr payload \<Rightarrow> (Inr payload, Suc k)
      | Inl e \<Rightarrow>
          (case useRetrier rs (Error e) of
             None \<Rightarrow> (Inl e, Suc k)
           | Some rs' \<Rightarrow> retryLoop rs' invoke (Suc k)))"
  by pat_completeness auto
termination
proof (relation "measure (\<lambda>(rs, invoke, k). sum_list (map snd rs))")
  show "wf (measure (\<lambda>(rs, invoke :: nat \<Rightarrow> task_error + 'a, k :: nat). sum_list (map snd rs)))"
    by simp
next
  fix rs :: "retrier list" and invoke :: "nat \<Rightarrow> task_error + 'a" and k :: nat
    and e rs'
  assume "invoke k = Inl e" and u: "useRetrier rs (Error e) = Some rs'"
  have "sum_list (map snd rs') < sum_list (map snd rs)"
    using u
  proof (induction rs arbitrary: rs')
    case Nil
    then show ?case by simp
  next
    case (Cons r rs)
    then show ?case
      by (cases r) (auto split: if_splits nat.splits)
  qed
  then show "((rs', invoke, Suc k), (rs, invoke, k))
               \<in> measure (\<lambda>(rs, invoke, k). sum_list (map snd rs))"
    by simp
qed

text \<open>The task of a \<^verbatim>\<open>tasks.LambdaInvoke\<close> state to which the source adds one retrier:
  the retrier of the library comes first.\<close>

definition invokeWithRetry ::
  "RetryProps \<Rightarrow> (nat \<Rightarrow> task_error + 'a) \<Rightarrow> (task_error + 'a) \<times> nat" where
  "invokeWithRetry p invoke = retryLoop [retrier lambdaInvokeRetry, retrier p] invoke 0"

text \<open>
  \<^verbatim>\<open>addCatch(handler)\<close> with no properties catches every error and has no result path:
  the handler's input is the error output alone, which is why both handlers read
  \<^verbatim>\<open>$.Cause\<close> at the top of their input.
\<close>

definition errorOutput :: "task_error \<Rightarrow> document" where
  "errorOutput e = [(''Error'', JStr (Error e)), (''Cause'', JStr (Cause e))]"

text \<open>\<^verbatim>\<open>'error.$': 'States.StringToJson($.Cause)'\<close>: the value of the parameter, when the
  intrinsic has one.\<close>

definition causeToJson :: "env \<Rightarrow> document \<Rightarrow> json option" where
  "causeToJson env doc =
     (case select [Key ''Cause''] (JObj doc) of
        Some (JStr text) \<Rightarrow> StringToJson env text
      | _ \<Rightarrow> None)"

section \<open>The states\<close>

datatype state_id =
    Track_Execution_Infos
  | DocGen
  | Any_Success
  | Add_to_catalog
  | Failed_to_add_to_catalog
  | Any_Failure
  | Send_to_Dead_Letter_Queue
  | Fail
  | Success

text \<open>What a state does with its input: go on with a document, end the execution, or
  fail with an error that nothing catches.\<close>

datatype transition =
    Goto state_id document
  | End_Succeed
  | End_Fail
  | Abort string

definition docGenResultsKey :: string where
  "docGenResultsKey = ''DocGen''"

text \<open>Lines 99-108, the \<^verbatim>\<open>Pass\<close> state \<^verbatim>\<open>Track Execution Infos\<close>: the input path selects
  the context object for the parameters, which read four of its fields; the result path
  stores them under \<^verbatim>\<open>$.$TaskExecution\<close> of the state's own input, the work item.\<close>

definition trackExecutionInfos :: "env \<Rightarrow> document \<Rightarrow> transition" where
  "trackExecutionInfos env doc =
     Goto DocGen
       (resultPath ''$TaskExecution''
          (JObj [(''Id'', JStr (exec_Id (Execution env))),
                 (''Name'', JStr (exec_Name (Execution env))),
                 (''RoleArn'', JStr (exec_RoleArn (Execution env))),
                 (''StartTime'', JStr (exec_StartTime (Execution env)))])
          doc)"

text \<open>Lines 122-127, the \<^verbatim>\<open>Pass\<close> state \<^verbatim>\<open>Failed <language>\<close>, the handler of a
  branch: its parameters are its output. A \<^verbatim>\<open>Pass\<close> state has no catcher of its own, so
  a parameter that cannot be evaluated fails the branch.\<close>

definition failedLanguage :: "env \<Rightarrow> DocumentationLanguage \<Rightarrow> document \<Rightarrow> string + json" where
  "failedLanguage env language doc =
     (case causeToJson env doc of
        None \<Rightarrow> Inl ''States.IntrinsicFailure''
      | Some cause \<Rightarrow>
          Inr (JObj [(''error'', cause), (''language'', JStr (LanguageText env language))]))"

text \<open>Lines 111-128, one branch: the task \<^verbatim>\<open>Generate <language> docs\<close>. The function
  is invoked on the state's input, under the retriers of the state (the library's and
  that of line 120). The result selector
  wraps the payload as \<^verbatim>\<open>{result: {language, success}}\<close> and the output path \<^verbatim>\<open>$.result\<close>
  unwraps it. When the retries are used up, the catcher of line 121 gives the error
  output to the handler.\<close>

definition generateDocs :: "env \<Rightarrow> DocumentationLanguage \<Rightarrow> document \<Rightarrow> string + json" where
  "generateDocs env language doc =
     (case fst (invokeWithRetry docGenRetry (\<lambda>k. Transliterator env language k doc)) of
        Inr payload \<Rightarrow>
          Inr (JObj [(''language'', JStr (LanguageText env language)), (''success'', payload)])
      | Inl e \<Rightarrow> failedLanguage env language (errorOutput e))"

text \<open>The join of a \<^verbatim>\<open>Parallel\<close> state: the array of the branches' outputs in the order
  of the branches, or the failure of a branch (the first in that order stands for
  whichever the engine reports).\<close>

fun joinBranches :: "(string + json) list \<Rightarrow> string + json list" where
  "joinBranches [] = Inr []"
| "joinBranches (Inl e # bs) = Inl e"
| "joinBranches (Inr r # bs) =
     (case joinBranches bs of Inl e \<Rightarrow> Inl e | Inr rs \<Rightarrow> Inr (r # rs))"

text \<open>Lines 109-129, the \<^verbatim>\<open>Parallel\<close> state \<^verbatim>\<open>DocGen\<close>; it has no catcher.\<close>

definition docGen :: "env \<Rightarrow> document \<Rightarrow> transition" where
  "docGen env doc =
     (case joinBranches (map (\<lambda>language. generateDocs env language doc) SUPPORTED_LANGUAGES) of
        Inl e \<Rightarrow> Abort e
      | Inr results \<Rightarrow> Goto Any_Success (resultPath docGenResultsKey (JArr results) doc))"

text \<open>Lines 130-137, the \<^verbatim>\<open>Choice\<close> state \<^verbatim>\<open>Any Success?\<close>.\<close>

definition anySuccessCondition :: condition where
  "anySuccessCondition =
     Condition_or
       (map (\<lambda>i. Condition_isNotPresent [Key docGenResultsKey, Index i, Key ''error''])
          [0..<length SUPPORTED_LANGUAGES])"

definition anySuccess :: "document \<Rightarrow> transition" where
  "anySuccess doc =
     (if holds anySuccessCondition (JObj doc) then Goto Add_to_catalog doc
      else Goto Any_Failure doc)"

text \<open>Lines 82-85, the \<^verbatim>\<open>Pass\<close> state \<^verbatim>\<open>Failed to add to catalog.json\<close>, the handler of
  the catalog update: its parameters, \<^verbatim>\<open>{error: <the parsed cause>}\<close>, go under \<^verbatim>\<open>$.error\<close>
  of its input, which is the error output.\<close>

definition failedToAddToCatalog :: "env \<Rightarrow> document \<Rightarrow> transition" where
  "failedToAddToCatalog env doc =
     (case causeToJson env doc of
        None \<Rightarrow> Abort ''States.IntrinsicFailure''
      | Some cause \<Rightarrow>
          Goto Send_to_Dead_Letter_Queue
            (resultPath ''error'' (JObj [(''error'', cause)]) doc))"

text \<open>Lines 72-85, the task \<^verbatim>\<open>Add to catalog.json\<close>: the function is invoked on the
  state's input, under the retriers of the state (the library's and that of line 81).
  The result selector reads two fields of the payload (a payload without them is a
  runtime error of the state), the result goes
  under \<^verbatim>\<open>$.catalogBuilderOutput\<close>, and line 135 chains the second \<^verbatim>\<open>Choice\<close> after it.
  When the retries are used up, the catcher of line 82 gives the error output to the
  handler. Beside the transition, the number of invocations of the function is given.\<close>

definition addToCatalog :: "env \<Rightarrow> document \<Rightarrow> nat \<times> transition" where
  "addToCatalog env doc =
     (let (outcome, invocations) =
            invokeWithRetry addToCatalogRetry (\<lambda>k. CatalogBuilder env k doc)
      in (invocations,
          case outcome of
            Inr payload \<Rightarrow>
              (case (select [Key ''ETag''] payload, select [Key ''VersionId''] payload) of
                 (Some etag, Some version) \<Rightarrow>
                   Goto Any_Failure
                     (resultPath ''catalogBuilderOutput''
                        (JObj [(''ETag'', etag), (''VersionId'', version)]) doc)
               | _ \<Rightarrow> Abort ''States.Runtime'')
          | Inl e \<Rightarrow> Goto Failed_to_add_to_catalog (errorOutput e)))"

text \<open>Lines 88-95, the \<^verbatim>\<open>Choice\<close> state \<^verbatim>\<open>Any Failure?\<close>.\<close>

definition anyFailureCondition :: condition where
  "anyFailureCondition =
     Condition_or
       (map (\<lambda>i. Condition_isPresent [Key docGenResultsKey, Index i, Key ''error''])
          [0..<length SUPPORTED_LANGUAGES])"

definition sendToDlqIfNeeded :: "document \<Rightarrow> transition" where
  "sendToDlqIfNeeded doc =
     (if holds anyFailureCondition (JObj doc) then Goto Send_to_Dead_Letter_Queue doc
      else Goto Success doc)"

text \<open>Lines 64-68, the task \<^verbatim>\<open>Send to Dead Letter Queue\<close>: the message body is the whole
  input (\<^verbatim>\<open>$\<close>), the result is discarded. The state is one object; line 93 gives it its
  only successor, \<^verbatim>\<open>Fail\<close>, also for the chain of line 85. The queue is taken to accept
  every message: the source has neither a retrier nor a catcher for the send, and an
  outage of the queue service is outside this model.\<close>

definition sendToDeadLetterQueue :: "document \<Rightarrow> json list \<times> transition" where
  "sendToDeadLetterQueue doc = ([JObj doc], Goto Fail doc)"

text \<open>What a state does to the world outside: the messages it sends to the queue, and
  the number of times it invokes the catalog builder function.\<close>

record effects =
  sent :: "json list"
  invoked :: nat

definition noEffect :: effects where
  "noEffect = \<lparr>sent = [], invoked = 0\<rparr>"

text \<open>One state of the definition: its effects and its transition.\<close>

fun step :: "env \<Rightarrow> state_id \<Rightarrow> document \<Rightarrow> effects \<times> transition" where
  "step env Track_Execution_Infos doc = (noEffect, trackExecutionInfos env doc)"
| "step env DocGen doc = (noEffect, docGen env doc)"
| "step env Any_Success doc = (noEffect, anySuccess doc)"
| "step env Add_to_catalog doc =
     (\<lparr>sent = [], invoked = fst (addToCatalog env doc)\<rparr>, snd (addToCatalog env doc))"
| "step env Failed_to_add_to_catalog doc = (noEffect, failedToAddToCatalog env doc)"
| "step env Any_Failure doc = (noEffect, sendToDlqIfNeeded doc)"
| "step env Send_to_Dead_Letter_Queue doc =
     (\<lparr>sent = fst (sendToDeadLetterQueue doc), invoked = 0\<rparr>, snd (sendToDeadLetterQueue doc))"
| "step env Fail doc = (noEffect, End_Fail)"
| "step env Success doc = (noEffect, End_Succeed)"

section \<open>Executions\<close>

datatype status = SUCCEEDED | FAILED "string option" | TIMED_OUT

text \<open>What is observed of an execution: its final status, the states it entered with
  the input of each, the messages it delivered to the dead letter queue, and the number
  of times it invoked the catalog builder function.\<close>

record execution =
  status :: status
  trail :: "(state_id \<times> document) list"
  dlq :: "json list"
  catalogBuilderInvocations :: nat

text \<open>
  Lines 140-145: the state machine has a timeout of one hour, after which the engine
  stops the execution where it is, with the status \<^verbatim>\<open>TIMED_OUT\<close>. Time is abstracted to
  the number of states the execution can enter within the hour, its budget: with none
  left, the execution is timed out. An execution ends as \<^verbatim>\<open>SUCCEEDED\<close> in the state
  \<^verbatim>\<open>Success\<close>, and as \<^verbatim>\<open>FAILED\<close> in the state \<^verbatim>\<open>Fail\<close> (no error name) or in a state that
  fails with an error that nothing catches (that error's name). No path has more than
  seven states, so a budget of seven is time enough for every execution.
\<close>

text \<open>An execution that ends in a state, and one that goes on from a state: the state
  and its effects come before those of the rest.\<close>

definition ended :: "status \<Rightarrow> state_id \<Rightarrow> document \<Rightarrow> effects \<Rightarrow> execution" where
  "ended st s doc eff =
     \<lparr>status = st, trail = [(s, doc)], dlq = sent eff, catalogBuilderInvocations = invoked eff\<rparr>"

definition entered :: "state_id \<Rightarrow> document \<Rightarrow> effects \<Rightarrow> execution \<Rightarrow> execution" where
  "entered s doc eff r =
     \<lparr>status = status r, trail = (s, doc) # trail r, dlq = sent eff @ dlq r,
      catalogBuilderInvocations = invoked eff + catalogBuilderInvocations r\<rparr>"

fun run :: "env \<Rightarrow> nat \<Rightarrow> state_id \<Rightarrow> document \<Rightarrow> execution" where
  "run env 0 s doc =
     \<lparr>status = TIMED_OUT, trail = [], dlq = [], catalogBuilderInvocations = 0\<rparr>"
| "run env (Suc n) s doc =
     (case step env s doc of
        (eff, Goto s' doc') \<Rightarrow> entered s doc eff (run env n s' doc')
      | (eff, End_Succeed) \<Rightarrow> ended SUCCEEDED s doc eff
      | (eff, End_Fail) \<Rightarrow> ended (FAILED None) s doc eff
      | (eff, Abort e) \<Rightarrow> ended (FAILED (Some e)) s doc eff)"

text \<open>The definition starts at \<^verbatim>\<open>Track Execution Infos\<close> (line 99).\<close>

definition startExecution :: "env \<Rightarrow> nat \<Rightarrow> document \<Rightarrow> execution" where
  "startExecution env budget workItem = run env budget Track_Execution_Infos workItem"

section \<open>The redrive operation\<close>

text \<open>
  Modelled from the spec: the handler of the redrive function
  (\<^verbatim>\<open>redrive-state-machine.lambda.ts\<close>) is not among the sources; lines 152-163 only
  create the function and grant it the queue and the state machine. Section 4.4 of the
  specification describes it: the queue is drained message by message; for each message
  the engine's \<^verbatim>\<open>start\<close> is called with the message's original input; an acknowledged
  start removes the message, a failed start leaves it in place; the operation returns
  the counts of attempted, succeeded and failed starts. \<open>start k input\<close> tells whether the
  \<open>k\<close>-th call (from 0) is acknowledged.
\<close>

record DeadLetterMessage =
  originalInput :: document
  cause :: json
  capturedAt :: string

record RedriveCounts =
  attempted :: nat
  succeeded :: nat
  failed :: nat

record RedriveState =
  counts :: RedriveCounts
  inQueue :: "DeadLetterMessage list"
  started :: "document list"

text \<open>Modelled from the spec: one message after the other, the handling of a message as
  section 4.4 gives it.\<close>

fun redriveMessages ::
  "(nat \<Rightarrow> document \<Rightarrow> bool) \<Rightarrow> DeadLetterMessage list \<Rightarrow> RedriveState \<Rightarrow> RedriveState" where
  "redriveMessages start [] st = st"
| "redriveMessages start (m # ms) st =
     (let c = counts st;
          acknowledged = start (attempted c) (originalInput m)
      in redriveMessages start ms
           \<lparr>counts =
              \<lparr>attempted = attempted c + 1,
               succeeded = succeeded c + (if acknowledged then 1 else 0),
               failed = failed c + (if acknowledged then 0 else 1)\<rparr>,
            inQueue = (if acknowledged then inQueue st else inQueue st @ [m]),
            started = started st @ [originalInput m]\<rparr>)"

text \<open>Modelled from the spec: the operation \<^verbatim>\<open>redrive() -> {attempted, succeeded, failed}\<close>
  on the queue as it is when the operation runs.\<close>

definition redrive :: "(nat \<Rightarrow> document \<Rightarrow> bool) \<Rightarrow> DeadLetterMessage list \<Rightarrow> RedriveState" where
  "redrive start queue =
     redriveMessages start queue
       \<lparr>counts = \<lparr>attempted = 0, succeeded = 0, failed = 0\<rparr>, inQueue = [], started = []\<rparr>"

section \<open>What the properties speak about\<close>

definition hasField :: "string \<Rightarrow> json \<Rightarrow> bool" where
  "hasField k j = (select [Key k] j \<noteq> None)"

definition keysOf :: "json \<Rightarrow> string list" where
  "keysOf j = (case j of JObj kvs \<Rightarrow> map fst kvs | _ \<Rightarrow> [])"

text \<open>The branch results a document carries: the array under \<^verbatim>\<open>$.DocGen\<close>.\<close>

definition branchResults :: "document \<Rightarrow> json list" where
  "branchResults doc =
     (case map_of doc docGenResultsKey of Some (JArr results) \<Rightarrow> results | _ \<Rightarrow> [])"

text \<open>The input with which an execution entered a state, and how often it entered it.\<close>

definition documentAt :: "state_id \<Rightarrow> execution \<Rightarrow> document option" where
  "documentAt s r = map_of (trail r) s"

definition timesEntered :: "state_id \<Rightarrow> execution \<Rightarrow> nat" where
  "timesEntered s r = length (filter (\<lambda>x. fst x = s) (trail r))"

text \<open>The state that an execution entered right after a given state, with its input.\<close>

definition following :: "state_id \<Rightarrow> execution \<Rightarrow> (state_id \<times> document) option" where
  "following s r =
     (case dropWhile (\<lambda>x. fst x \<noteq> s) (trail r) of
        x # y # rest \<Rightarrow> Some y
      | _ \<Rightarrow> None)"

text \<open>The branch results of an execution: those of the document with which it entered
  \<^verbatim>\<open>Any Success?\<close>, the state after the fan-out; none when it never got there.\<close>

definition fanOutResults :: "execution \<Rightarrow> json list" where
  "fanOutResults r =
     (case documentAt Any_Success r of Some doc \<Rightarrow> branchResults doc | None \<Rightarrow> [])"

text \<open>The record that the first state attaches.\<close>

definition executionContext :: "env \<Rightarrow> document \<Rightarrow> json option" where
  "executionContext env workItem =
     (case trackExecutionInfos env workItem of
        Goto s doc \<Rightarrow> map_of doc ''$TaskExecution''
      | _ \<Rightarrow> None)"

text \<open>The keys under which the states store their results, and the documents that agree
  with a work item on every other key.\<close>

definition resultKeys :: "string list" where
  "resultKeys = [''$TaskExecution'', docGenResultsKey, ''catalogBuilderOutput'']"

definition sameFields :: "document \<Rightarrow> document \<Rightarrow> bool" where
  "sameFields workItem doc = (\<forall>k. k \<notin> set resultKeys \<longrightarrow> map_of doc k = map_of workItem k)"

text \<open>The messages of a queue that a redrive leaves in place and those it removes.\<close>

fun notAcknowledged ::
  "(nat \<Rightarrow> document \<Rightarrow> bool) \<Rightarrow> nat \<Rightarrow> DeadLetterMessage list \<Rightarrow> DeadLetterMessage list" where
  "notAcknowledged start k [] = []"
| "notAcknowledged start k (m # ms) =
     (if start k (originalInput m) then notAcknowledged start (Suc k) ms
      else m # notAcknowledged start (Suc k) ms)"

fun acknowledged ::
  "(nat \<Rightarrow> document \<Rightarrow> bool) \<Rightarrow> nat \<Rightarrow> DeadLetterMessage list \<Rightarrow> DeadLetterMessage list" where
  "acknowledged start k [] = []"
| "acknowledged start k (m # ms) =
     (if start k (originalInput m) then m # acknowledged start (Suc k) ms
      else acknowledged start (Suc k) ms)"

subsection \<open>Notions used in the proofs\<close>

text \<open>The longest path that is left from a state, counted in states.\<close>

fun statesLeft :: "state_id \<Rightarrow> nat" where
  "statesLeft Track_Execution_Infos = 7"
| "statesLeft DocGen = 6"
| "statesLeft Any_Success = 5"
| "statesLeft Add_to_catalog = 4"
| "statesLeft Failed_to_add_to_catalog = 3"
| "statesLeft Any_Failure = 3"
| "statesLeft Send_to_Dead_Letter_Queue = 2"
| "statesLeft Fail = 1"
| "statesLeft Success = 1"

text \<open>A list of entered states in which each one is the successor of the one before.\<close>

fun chain :: "env \<Rightarrow> (state_id \<times> document) list \<Rightarrow> bool" where
  "chain env [] = True"
| "chain env [x] = True"
| "chain env (x # y # xs) =
     (snd (step env (fst x) (snd x)) = Goto (fst y) (snd y) \<and> chain env (y # xs))"

text \<open>The status of an execution whose last entered state made the given transition.\<close>

definition final :: "transition \<Rightarrow> status" where
  "final t =
     (case t of
        Goto s doc \<Rightarrow> TIMED_OUT
      | End_Succeed \<Rightarrow> SUCCEEDED
      | End_Fail \<Rightarrow> FAILED None
      | Abort e \<Rightarrow> FAILED (Some e))"

definition tagged :: "json \<Rightarrow> bool" where
  "tagged r = (hasField ''language'' r \<and> (hasField ''success'' r \<noteq> hasField ''error'' r))"

definition fannedOut :: "document \<Rightarrow> bool" where
  "fannedOut doc =
     (length (branchResults doc) = length SUPPORTED_LANGUAGES \<and>
      list_all tagged (branchResults doc))"

definition afterFanOut :: "state_id \<Rightarrow> bool" where
  "afterFanOut s = (s = Any_Success \<or> s = Add_to_catalog \<or> s = Any_Failure)"

definition beforeRouting :: "state_id \<Rightarrow> bool" where
  "beforeRouting s =
     (s = Track_Execution_Infos \<or> s = DocGen \<or> s = Any_Success \<or> s = Add_to_catalog \<or>
      s = Any_Failure)"

section \<open>Example executions\<close>

text \<open>
  The environments of the examples share one context object and one fragment of
  \<^verbatim>\<open>States.StringToJson\<close>, defined on the one JSON text the examples use, the failure
  text of a function that throws; the other failure text of the examples, that of a
  throttled invocation, is not JSON, and on it the intrinsic has no result.
\<close>

definition exampleStringToJson :: "string \<Rightarrow> json option" where
  \<open>exampleStringToJson text =
     (if text = ''{"errorType":"Error","errorMessage":"boom"}''
      then Some (JObj [(''errorType'', JStr ''Error''), (''errorMessage'', JStr ''boom'')])
      else None)\<close>

definition exampleExecution :: execution_info where
  "exampleExecution =
     \<lparr>exec_Id = ''arn:aws:states:execution:1'', exec_Name = ''run-1'',
      exec_RoleArn = ''arn:aws:iam:role'', exec_StartTime = ''2021-07-01T00:00:00Z''\<rparr>"

definition exampleWorkItem :: document where
  "exampleWorkItem = [(''pkg'', JStr ''foo''), (''version'', JStr ''1.0.0'')]"

definition catalogPayload :: json where
  "catalogPayload = JObj [(''ETag'', JStr ''etag-1''), (''VersionId'', JStr ''v1'')]"

definition taskFailed :: task_error where
  \<open>taskFailed = TaskError ''Error'' ''{"errorType":"Error","errorMessage":"boom"}''\<close>

definition throttled :: task_error where
  "throttled = TaskError ''Lambda.TooManyRequestsException'' ''Rate Exceeded.''"


definition envAllSucceed :: env where
  "envAllSucceed =
     \<lparr>Execution = exampleExecution,
      LanguageText =
        (\<lambda>language. case language of PYTHON \<Rightarrow> ''python'' | TYPESCRIPT \<Rightarrow> ''typescript''),
      Transliterator = (\<lambda>language k doc. Inr (JObj [])),
      CatalogBuilder = (\<lambda>k doc. Inr catalogPayload),
      StringToJson = exampleStringToJson\<rparr>"

definition envTypescriptFails :: env where
  "envTypescriptFails =
     envAllSucceed\<lparr>Transliterator :=
       (\<lambda>language k doc. if language = TYPESCRIPT then Inl taskFailed else Inr (JObj []))\<rparr>"

definition envBothFail :: env where
  "envBothFail = envAllSucceed\<lparr>Transliterator := (\<lambda>language k doc. Inl taskFailed)\<rparr>"

definition envPythonThrottled :: env where
  "envPythonThrottled =
     envAllSucceed\<lparr>Transliterator :=
       (\<lambda>language k doc. if language = PYTHON then Inl throttled else Inr (JObj []))\<rparr>"

definition envCatalogThrottled :: env where
  "envCatalogThrottled = envAllSucceed\<lparr>CatalogBuilder := (\<lambda>k doc. Inl throttled)\<rparr>"

definition envCatalogFails :: env where
  "envCatalogFails = envAllSucceed\<lparr>CatalogBuilder := (\<lambda>k doc. Inl taskFailed)\<rparr>"




text \<open>The executions of the scenarios, each with time for seven states.\<close>

definition allSucceed :: execution where
  "allSucceed = startExecution envAllSucceed 7 exampleWorkItem"

definition partialFailure :: execution where
  "partialFailure = startExecution envTypescriptFails 7 exampleWorkItem"

definition totalFailure :: execution where
  "totalFailure = startExecution envBothFail 7 exampleWorkItem"


definition exampleQueue :: "DeadLetterMessage list" where
  "exampleQueue =
     [\<lparr>originalInput = [(''pkg'', JStr ''a'')], cause = JNull, capturedAt = ''t1''\<rparr>,
      \<lparr>originalInput = [(''pkg'', JStr ''b'')], cause = JNull, capturedAt = ''t2''\<rparr>,
      \<lparr>originalInput = [(''pkg'', JStr ''c'')], cause = JNull, capturedAt = ''t3''\<rparr>]"

section \<open>Facts about executions\<close>

lemma ended_simps [simp]:
  "status (ended st s doc eff) = st"
  "trail (ended st s doc eff) = [(s, doc)]"
  "dlq (ended st s doc eff) = sent eff"
  "catalogBuilderInvocations (ended st s doc eff) = invoked eff"
  by (simp_all add: ended_def)

lemma entered_simps [simp]:
  "status (entered s doc eff r) = status r"
  "trail (entered s doc eff r) = (s, doc) # trail r"
  "dlq (entered s doc eff r) = sent eff @ dlq r"
  "catalogBuilderInvocations (entered s doc eff r) = invoked eff + catalogBuilderInvocations r"
  by (simp_all add: entered_def)

lemma step_statesLeft:
  "snd (step env s doc) = Goto s' doc' \<Longrightarrow> statesLeft s' < statesLeft s"
  by (cases s)
     (auto simp: trackExecutionInfos_def docGen_def anySuccess_def addToCatalog_def
        failedToAddToCatalog_def sendToDlqIfNeeded_def sendToDeadLetterQueue_def
        split: sum.splits option.splits if_splits prod.splits)

lemma statesLeft_pos: "0 < statesLeft s"
  by (cases s) simp_all

lemma trail_Suc: "\<exists>rest. trail (run env (Suc n) s doc) = (s, doc) # rest"
  by (auto split: prod.splits transition.splits simp: Let_def)

lemma trail_chain: "chain env (trail (run env n s doc))"
proof (induction n arbitrary: s doc)
  case 0
  show ?case by simp
next
  case (Suc n)
  show ?case
  proof (cases "step env s doc")
    case (Pair sent t)
    show ?thesis
    proof (cases t)
      case (Goto s' doc')
      show ?thesis
      proof (cases n)
        case 0
        with Pair Goto show ?thesis by simp
      next
        case (Suc m)
        obtain rest where r: "trail (run env (Suc m) s' doc') = (s', doc') # rest"
          using trail_Suc by blast
        have "chain env ((s', doc') # rest)"
          using Suc.IH [of s' doc'] r Suc by simp
        with Pair Goto Suc r show ?thesis by (simp add: Let_def)
      qed
    qed (use Pair in simp_all)
  qed
qed

lemma trail_statesLeft:
  "x \<in> set (trail (run env n s doc)) \<Longrightarrow> statesLeft (fst x) \<le> statesLeft s"
proof (induction n arbitrary: s doc)
  case 0
  then show ?case by simp
next
  case (Suc n)
  show ?case
  proof (cases "step env s doc")
    case (Pair sent t)
    show ?thesis
    proof (cases t)
      case (Goto s' doc')
      have lt: "statesLeft s' < statesLeft s"
        using step_statesLeft [of env s doc s' doc'] Pair Goto by simp
      from Suc.prems Pair Goto have "x = (s, doc) \<or> x \<in> set (trail (run env n s' doc'))"
        by (simp add: Let_def)
      then show ?thesis
        using Suc.IH [of s' doc'] lt by auto
    qed (use Pair Suc.prems in auto)
  qed
qed

lemma trail_distinct: "distinct (map fst (trail (run env n s doc)))"
proof (induction n arbitrary: s doc)
  case 0
  show ?case by simp
next
  case (Suc n)
  show ?case
  proof (cases "step env s doc")
    case (Pair sent t)
    show ?thesis
    proof (cases t)
      case (Goto s' doc')
      have lt: "statesLeft s' < statesLeft s"
        using step_statesLeft [of env s doc s' doc'] Pair Goto by simp
      have "s \<notin> fst ` set (trail (run env n s' doc'))"
        using trail_statesLeft [of _ env n s' doc'] lt by force
      with Suc.IH [of s' doc'] Pair Goto show ?thesis by (simp add: Let_def)
    qed (use Pair in simp_all)
  qed
qed

lemma run_completes: "statesLeft s \<le> n \<Longrightarrow> status (run env n s doc) \<noteq> TIMED_OUT"
proof (induction n arbitrary: s doc)
  case 0
  then show ?case using statesLeft_pos [of s] by simp
next
  case (Suc n)
  show ?case
  proof (cases "step env s doc")
    case (Pair sent t)
    show ?thesis
    proof (cases t)
      case (Goto s' doc')
      have "statesLeft s' < statesLeft s"
        using step_statesLeft [of env s doc s' doc'] Pair Goto by simp
      with Suc.prems have "statesLeft s' \<le> n" by simp
      with Suc.IH [of s' doc'] Pair Goto show ?thesis by (simp add: Let_def)
    qed (use Pair in simp_all)
  qed
qed

lemma seven_states_suffice:
  "7 \<le> budget \<Longrightarrow> status (startExecution env budget workItem) \<noteq> TIMED_OUT"
  unfolding startExecution_def by (rule run_completes) simp

lemma chain_pred:
  "chain env xs \<Longrightarrow> y \<in> set (tl xs) \<Longrightarrow>
   \<exists>x\<in>set xs. snd (step env (fst x) (snd x)) = Goto (fst y) (snd y)"
proof (induction env xs rule: chain.induct)
  case (3 env x z zs)
  then show ?case by auto
qed simp_all

lemma chain_succ:
  "chain env xs \<Longrightarrow> x \<in> set (butlast xs) \<Longrightarrow>
   \<exists>y\<in>set xs. snd (step env (fst x) (snd x)) = Goto (fst y) (snd y)"
proof (induction env xs rule: chain.induct)
  case (3 env x z zs)
  then show ?case by (auto split: if_splits)
qed simp_all

lemma status_last:
  "status (run env (Suc n) s doc) =
     final (snd (step env (fst (last (trail (run env (Suc n) s doc))))
                          (snd (last (trail (run env (Suc n) s doc))))))"
proof (induction n arbitrary: s doc)
  case 0
  show ?case
    by (cases "step env s doc"; cases "snd (step env s doc)") (auto simp: final_def)
next
  case (Suc n)
  show ?case
  proof (cases "step env s doc")
    case (Pair sent t)
    show ?thesis
    proof (cases t)
      case (Goto s' doc')
      obtain rest where r: "trail (run env (Suc n) s' doc') = (s', doc') # rest"
        using trail_Suc by blast
      have "status (run env (Suc (Suc n)) s doc) = status (run env (Suc n) s' doc')"
        and "trail (run env (Suc (Suc n)) s doc) = (s, doc) # trail (run env (Suc n) s' doc')"
        using Pair Goto by (simp_all add: Let_def)
      then show ?thesis using Suc.IH [of s' doc'] r by simp
    qed (use Pair in \<open>auto simp: final_def\<close>)
  qed
qed

lemma step_sent:
  "sent (fst (step env s doc)) = (if s = Send_to_Dead_Letter_Queue then [JObj doc] else [])"
  by (cases s) (simp_all add: sendToDeadLetterQueue_def noEffect_def)

lemma step_invoked:
  "invoked (fst (step env s doc)) = (if s = Add_to_catalog then fst (addToCatalog env doc) else 0)"
  by (cases s) (simp_all add: noEffect_def)

lemma dlq_trail:
  "dlq (run env n s doc) =
     map (\<lambda>x. JObj (snd x)) (filter (\<lambda>x. fst x = Send_to_Dead_Letter_Queue) (trail (run env n s doc)))"
proof (induction n arbitrary: s doc)
  case 0
  show ?case by simp
next
  case (Suc n)
  show ?case
  proof (cases "step env s doc")
    case (Pair eff t)
    with step_sent [of env s doc]
    have e: "sent eff = (if s = Send_to_Dead_Letter_Queue then [JObj doc] else [])"
      by simp
    show ?thesis
    proof (cases t)
      case (Goto s' doc')
      with Pair e Suc.IH [of s' doc'] show ?thesis by (simp add: Let_def)
    qed (use Pair e in \<open>simp_all add: ended_def\<close>)
  qed
qed

lemma invocations_trail:
  "catalogBuilderInvocations (run env n s doc) =
     sum_list (map (\<lambda>x. if fst x = Add_to_catalog then fst (addToCatalog env (snd x)) else 0)
                 (trail (run env n s doc)))"
proof (induction n arbitrary: s doc)
  case 0
  show ?case by simp
next
  case (Suc n)
  show ?case
  proof (cases "step env s doc")
    case (Pair eff t)
    with step_invoked [of env s doc]
    have e: "invoked eff = (if s = Add_to_catalog then fst (addToCatalog env doc) else 0)"
      by simp
    show ?thesis
    proof (cases t)
      case (Goto s' doc')
      with Pair e Suc.IH [of s' doc'] show ?thesis by (simp add: Let_def)
    qed (use Pair e in \<open>simp_all add: ended_def\<close>)
  qed
qed

lemma failedLanguage_tagged:
  "failedLanguage env language doc = Inr r \<Longrightarrow>
   hasField ''language'' r \<and> hasField ''error'' r \<and> \<not> hasField ''success'' r"
  by (auto simp: failedLanguage_def hasField_def split: option.splits)

lemma generateDocs_tagged: "generateDocs env language doc = Inr r \<Longrightarrow> tagged r"
  unfolding generateDocs_def tagged_def
  by (auto simp: hasField_def dest: failedLanguage_tagged split: sum.splits)

lemma joinBranches_Inr:
  "joinBranches bs = Inr rs \<Longrightarrow> bs = map Inr rs"
proof (induction bs arbitrary: rs)
  case Nil
  then show ?case by simp
next
  case (Cons b bs)
  then show ?case by (cases b) (auto split: sum.splits)
qed

lemma branchResults_stored [simp]:
  "branchResults (resultPath docGenResultsKey (JArr rs) doc) = rs"
  by (simp add: branchResults_def resultPath_def update_conv')

lemma branchResults_other:
  "k \<noteq> docGenResultsKey \<Longrightarrow> branchResults (resultPath k v doc) = branchResults doc"
  by (simp add: branchResults_def resultPath_def update_conv')

lemma docGen_Goto:
  assumes "docGen env doc = Goto s doc'"
  shows "s = Any_Success \<and> fannedOut doc' \<and>
         (\<exists>rs. doc' = resultPath docGenResultsKey (JArr rs) doc)"
proof -
  obtain rs where j: "joinBranches (map (\<lambda>language. generateDocs env language doc) SUPPORTED_LANGUAGES) = Inr rs"
    and s: "s = Any_Success" and d: "doc' = resultPath docGenResultsKey (JArr rs) doc"
    using assms by (auto simp: docGen_def split: sum.splits)
  have m: "map (\<lambda>language. generateDocs env language doc) SUPPORTED_LANGUAGES = map Inr rs"
    using joinBranches_Inr [OF j] .
  then have len: "length rs = length SUPPORTED_LANGUAGES"
    by (metis length_map)
  have "tagged r" if "r \<in> set rs" for r
  proof -
    from that have "Inr r \<in> set (map (\<lambda>language. generateDocs env language doc) SUPPORTED_LANGUAGES)"
      using m by simp
    then obtain language where "generateDocs env language doc = Inr r" by auto
    then show ?thesis by (rule generateDocs_tagged)
  qed
  then have "list_all tagged rs" by (simp add: list_all_iff)
  with len s d show ?thesis by (auto simp: fannedOut_def)
qed

lemma select_branch_field:
  "select [Key docGenResultsKey, Index i, Key k] (JObj doc) =
     (if i < length (branchResults doc) then select [Key k] (branchResults doc ! i) else None)"
  by (auto simp: branchResults_def split: option.splits json.splits)

lemma anyFailure_iff:
  assumes len: "length (branchResults doc) = length SUPPORTED_LANGUAGES"
  shows "holds anyFailureCondition (JObj doc) = list_ex (hasField ''error'') (branchResults doc)"
proof -
  have "holds anyFailureCondition (JObj doc) =
          (\<exists>i<length (branchResults doc). hasField ''error'' (branchResults doc ! i))"
    unfolding anyFailureCondition_def
    by (auto simp: list_ex_iff hasField_def select_branch_field len [symmetric]
          simp del: select.simps)
  also have "\<dots> = list_ex (hasField ''error'') (branchResults doc)"
    by (metis list_ex_length)
  finally show ?thesis .
qed

lemma anySuccess_iff:
  assumes "fannedOut doc"
  shows "holds anySuccessCondition (JObj doc) = list_ex (hasField ''success'') (branchResults doc)"
proof -
  have len: "length (branchResults doc) = length SUPPORTED_LANGUAGES"
    and tag: "\<And>i. i < length (branchResults doc) \<Longrightarrow> tagged (branchResults doc ! i)"
    using assms by (auto simp: fannedOut_def list_all_iff)
  have "holds anySuccessCondition (JObj doc) =
          (\<exists>i<length (branchResults doc). \<not> hasField ''error'' (branchResults doc ! i))"
    unfolding anySuccessCondition_def
    by (auto simp: list_ex_iff hasField_def select_branch_field len [symmetric]
          simp del: select.simps)
  also have "\<dots> = (\<exists>i<length (branchResults doc). hasField ''success'' (branchResults doc ! i))"
    using tag by (auto simp: tagged_def)
  also have "\<dots> = list_ex (hasField ''success'') (branchResults doc)"
    by (metis list_ex_length)
  finally show ?thesis .
qed

lemma trackExecutionInfos_Goto:
  "trackExecutionInfos env doc = Goto s' doc' \<Longrightarrow> s' = DocGen"
  by (auto simp: trackExecutionInfos_def)

lemma anySuccess_Goto:
  "anySuccess doc = Goto s' doc' \<Longrightarrow>
   doc' = doc \<and> (if holds anySuccessCondition (JObj doc) then s' = Add_to_catalog else s' = Any_Failure)"
  by (auto simp: anySuccess_def split: if_splits)

lemma addToCatalog_fst:
  "fst (addToCatalog env doc) =
     snd (invokeWithRetry addToCatalogRetry (\<lambda>k. CatalogBuilder env k doc))"
  by (simp add: addToCatalog_def case_prod_beta)

lemma addToCatalog_snd:
  "snd (addToCatalog env doc) =
     (case fst (invokeWithRetry addToCatalogRetry (\<lambda>k. CatalogBuilder env k doc)) of
        Inr payload \<Rightarrow>
          (case (select [Key ''ETag''] payload, select [Key ''VersionId''] payload) of
             (Some etag, Some version) \<Rightarrow>
               Goto Any_Failure
                 (resultPath ''catalogBuilderOutput''
                    (JObj [(''ETag'', etag), (''VersionId'', version)]) doc)
           | _ \<Rightarrow> Abort ''States.Runtime'')
      | Inl e \<Rightarrow> Goto Failed_to_add_to_catalog (errorOutput e))"
  by (simp add: addToCatalog_def case_prod_beta)

lemma addToCatalog_Goto:
  "snd (addToCatalog env doc) = Goto s' doc' \<Longrightarrow>
   (s' = Any_Failure \<and> (\<exists>v. doc' = resultPath ''catalogBuilderOutput'' v doc)) \<or>
   (s' = Failed_to_add_to_catalog \<and> (\<exists>e. doc' = errorOutput e))"
  unfolding addToCatalog_snd
  by (cases "fst (invokeWithRetry addToCatalogRetry (\<lambda>k. CatalogBuilder env k doc))")
     (auto split: option.splits)

lemma failedToAddToCatalog_Goto:
  "failedToAddToCatalog env doc = Goto s' doc' \<Longrightarrow> s' = Send_to_Dead_Letter_Queue"
  by (auto simp: failedToAddToCatalog_def split: option.splits)

lemma sendToDlqIfNeeded_Goto:
  "sendToDlqIfNeeded doc = Goto s' doc' \<Longrightarrow>
   doc' = doc \<and>
   (if holds anyFailureCondition (JObj doc) then s' = Send_to_Dead_Letter_Queue else s' = Success)"
  by (auto simp: sendToDlqIfNeeded_def split: if_splits)

lemma goto_Add_to_catalog:
  assumes "snd (step env s doc) = Goto Add_to_catalog doc'"
  shows "s = Any_Success \<and> doc' = doc \<and> holds anySuccessCondition (JObj doc)"
proof (cases s)
  case Track_Execution_Infos
  with assms show ?thesis using trackExecutionInfos_Goto [of env doc Add_to_catalog doc'] by simp
next
  case DocGen
  with assms show ?thesis using docGen_Goto [of env doc Add_to_catalog doc'] by simp
next
  case Any_Success
  with assms show ?thesis using anySuccess_Goto [of doc Add_to_catalog doc'] by (simp split: if_splits)
next
  case Add_to_catalog
  with assms show ?thesis using addToCatalog_Goto [of env doc Add_to_catalog doc'] by simp
next
  case Failed_to_add_to_catalog
  with assms show ?thesis using failedToAddToCatalog_Goto [of env doc Add_to_catalog doc'] by simp
next
  case Any_Failure
  with assms show ?thesis using sendToDlqIfNeeded_Goto [of doc Add_to_catalog doc'] by (simp split: if_splits)
qed (use assms in \<open>simp_all add: sendToDeadLetterQueue_def\<close>)

lemma goto_Any_Failure:
  assumes "snd (step env s doc) = Goto Any_Failure doc'"
  shows "(s = Any_Success \<and> doc' = doc) \<or>
         (s = Add_to_catalog \<and> (\<exists>v. doc' = resultPath ''catalogBuilderOutput'' v doc))"
proof (cases s)
  case Track_Execution_Infos
  with assms show ?thesis using trackExecutionInfos_Goto [of env doc Any_Failure doc'] by simp
next
  case DocGen
  with assms show ?thesis using docGen_Goto [of env doc Any_Failure doc'] by simp
next
  case Any_Success
  with assms show ?thesis using anySuccess_Goto [of doc Any_Failure doc'] by simp
next
  case Add_to_catalog
  with assms show ?thesis using addToCatalog_Goto [of env doc Any_Failure doc'] by simp
next
  case Failed_to_add_to_catalog
  with assms show ?thesis using failedToAddToCatalog_Goto [of env doc Any_Failure doc'] by simp
next
  case Any_Failure
  with assms show ?thesis using sendToDlqIfNeeded_Goto [of doc Any_Failure doc'] by (simp split: if_splits)
qed (use assms in \<open>simp_all add: sendToDeadLetterQueue_def\<close>)

lemma goto_Fail:
  assumes "snd (step env s doc) = Goto Fail doc'"
  shows "s = Send_to_Dead_Letter_Queue \<and> doc' = doc"
proof (cases s)
  case Track_Execution_Infos
  with assms show ?thesis using trackExecutionInfos_Goto [of env doc Fail doc'] by simp
next
  case DocGen
  with assms show ?thesis using docGen_Goto [of env doc Fail doc'] by simp
next
  case Any_Success
  with assms show ?thesis using anySuccess_Goto [of doc Fail doc'] by (simp split: if_splits)
next
  case Add_to_catalog
  with assms show ?thesis using addToCatalog_Goto [of env doc Fail doc'] by simp
next
  case Failed_to_add_to_catalog
  with assms show ?thesis using failedToAddToCatalog_Goto [of env doc Fail doc'] by simp
next
  case Any_Failure
  with assms show ?thesis using sendToDlqIfNeeded_Goto [of doc Fail doc'] by (simp split: if_splits)
qed (use assms in \<open>simp_all add: sendToDeadLetterQueue_def\<close>)

lemma end_Fail: "snd (step env s doc) = End_Fail \<Longrightarrow> s = Fail"
proof (cases s)
  case DocGen
  assume "snd (step env s doc) = End_Fail"
  with DocGen show ?thesis by (simp add: docGen_def split: sum.splits)
next
  case Add_to_catalog
  assume "snd (step env s doc) = End_Fail"
  with Add_to_catalog show ?thesis
    unfolding addToCatalog_snd
    by (cases "fst (invokeWithRetry addToCatalogRetry (\<lambda>k. CatalogBuilder env k doc))")
       (auto simp: addToCatalog_snd split: option.splits)
qed (auto simp: trackExecutionInfos_def anySuccess_def failedToAddToCatalog_def
       sendToDlqIfNeeded_def sendToDeadLetterQueue_def split: option.splits if_splits)

lemma trail_invariant:
  assumes "\<And>s doc s' doc'. I s doc \<Longrightarrow> snd (step env s doc) = Goto s' doc' \<Longrightarrow> I s' doc'"
  shows "I s doc \<Longrightarrow> x \<in> set (trail (run env n s doc)) \<Longrightarrow> I (fst x) (snd x)"
proof (induction n arbitrary: s doc)
  case 0
  then show ?case by simp
next
  case (Suc n)
  show ?case
  proof (cases "step env s doc")
    case (Pair sent t)
    show ?thesis
    proof (cases t)
      case (Goto s' doc')
      have "I s' doc'" using assms [OF Suc.prems(1), of s' doc'] Pair Goto by simp
      moreover from Suc.prems(2) Pair Goto
      have "x = (s, doc) \<or> x \<in> set (trail (run env n s' doc'))"
        by (simp add: Let_def)
      ultimately show ?thesis using Suc.IH [of s' doc'] Suc.prems(1) by auto
    qed (use Pair Suc.prems in auto)
  qed
qed

lemma fannedOut_step:
  assumes "afterFanOut s \<longrightarrow> fannedOut doc" and "snd (step env s doc) = Goto s' doc'"
  shows "afterFanOut s' \<longrightarrow> fannedOut doc'"
proof (cases s)
  case DocGen
  with assms(2) show ?thesis using docGen_Goto [of env doc s' doc'] by simp
next
  case Add_to_catalog
  with assms show ?thesis
    using addToCatalog_Goto [of env doc s' doc']
    by (auto simp: afterFanOut_def fannedOut_def docGenResultsKey_def branchResults_other)
qed (use assms in \<open>auto simp: trackExecutionInfos_def anySuccess_def afterFanOut_def
       failedToAddToCatalog_def sendToDlqIfNeeded_def sendToDeadLetterQueue_def
       split: option.splits if_splits\<close>)

lemma trail_fannedOut:
  assumes "(s, doc) \<in> set (trail (startExecution env budget workItem))" and "afterFanOut s"
  shows "fannedOut doc"
proof -
  have "afterFanOut (fst (s, doc)) \<longrightarrow> fannedOut (snd (s, doc))"
  proof (rule trail_invariant [where I = "\<lambda>s doc. afterFanOut s \<longrightarrow> fannedOut doc"])
    show "afterFanOut Track_Execution_Infos \<longrightarrow> fannedOut workItem"
      by (simp add: afterFanOut_def)
    show "(s, doc) \<in> set (trail (run env budget Track_Execution_Infos workItem))"
      using assms(1) by (simp add: startExecution_def)
  qed (rule fannedOut_step)
  with assms(2) show ?thesis by simp
qed

lemma in_butlast: "x \<in> set xs \<Longrightarrow> x \<noteq> last xs \<Longrightarrow> x \<in> set (butlast xs)"
  by (induction xs) (auto split: if_splits)

lemma run_successor:
  assumes "status (run env n s0 doc0) \<noteq> TIMED_OUT"
    and "(s, doc) \<in> set (trail (run env n s0 doc0))"
    and "snd (step env s doc) = Goto s' doc'"
  shows "(s', doc') \<in> set (trail (run env n s0 doc0))"
proof -
  obtain m where n: "n = Suc m" using assms(1) by (cases n) auto
  let ?xs = "trail (run env n s0 doc0)"
  have nt: "final (snd (step env (fst (last ?xs)) (snd (last ?xs)))) \<noteq> TIMED_OUT"
    using status_last [of env m s0 doc0] assms(1) n by simp
  have "(s, doc) \<noteq> last ?xs"
  proof
    assume "(s, doc) = last ?xs"
    then have l: "last ?xs = (s, doc)" by simp
    have "snd (step env (fst (last ?xs)) (snd (last ?xs))) = Goto s' doc'"
      unfolding l using assms(3) by simp
    with nt show False by (simp add: final_def)
  qed
  then have "(s, doc) \<in> set (butlast ?xs)" using assms(2) by (rule in_butlast [rotated])
  from chain_succ [OF trail_chain this] assms(3) show ?thesis by auto
qed

lemma chain_terminal_last:
  assumes "chain env xs" and "x \<in> set xs"
    and "\<forall>s' doc'. snd (step env (fst x) (snd x)) \<noteq> Goto s' doc'"
  shows "x = last xs"
proof (rule ccontr)
  assume "x \<noteq> last xs"
  with assms(2) have "x \<in> set (butlast xs)" by (rule in_butlast)
  from chain_succ [OF assms(1) this] assms(3) show False by auto
qed

lemma run_terminal:
  assumes "(s, doc) \<in> set (trail (run env n s0 doc0))"
    and "\<forall>s' doc'. snd (step env s doc) \<noteq> Goto s' doc'"
  shows "status (run env n s0 doc0) = final (snd (step env s doc))"
proof -
  obtain m where n: "n = Suc m" using assms(1) by (cases n) auto
  have "(s, doc) = last (trail (run env n s0 doc0))"
    using chain_terminal_last [OF trail_chain assms(1)] assms(2) by simp
  then have l: "last (trail (run env (Suc m) s0 doc0)) = (s, doc)" using n by simp
  show ?thesis using status_last [of env m s0 doc0] unfolding l n by simp
qed

lemma run_predecessor:
  assumes "(s', doc') \<in> set (trail (run env n s0 doc0))" and "s' \<noteq> s0"
  shows "\<exists>s doc. (s, doc) \<in> set (trail (run env n s0 doc0)) \<and>
           snd (step env s doc) = Goto s' doc'"
proof -
  obtain m where n: "n = Suc m" using assms(1) by (cases n) auto
  obtain rest where r: "trail (run env n s0 doc0) = (s0, doc0) # rest"
    using trail_Suc n by blast
  with assms have "(s', doc') \<in> set (tl (trail (run env n s0 doc0)))" by auto
  from chain_pred [OF trail_chain this]
  obtain x where "x \<in> set (trail (run env n s0 doc0))"
    and "snd (step env (fst x) (snd x)) = Goto s' doc'" by auto
  then have "(fst x, snd x) \<in> set (trail (run env n s0 doc0)) \<and>
      snd (step env (fst x) (snd x)) = Goto s' doc'" by simp
  then show ?thesis by blast
qed

lemma trail_lookup:
  "(map_of (trail (run env n s0 doc0)) s = Some doc) = ((s, doc) \<in> set (trail (run env n s0 doc0)))"
  by (rule map_of_eq_Some_iff [OF trail_distinct])

lemma filter_distinct_fst:
  "distinct (map fst xs) \<Longrightarrow>
   filter (\<lambda>x. fst x = s) xs = (case map_of xs s of None \<Rightarrow> [] | Some d \<Rightarrow> [(s, d)])"
proof (induction xs)
  case Nil
  show ?case by simp
next
  case (Cons x xs)
  then show ?case
    by (cases x) (auto split: option.splits simp: map_of_eq_None_iff image_iff dest: map_of_SomeD)
qed

lemma run_dlq:
  "dlq (run env n s0 doc0) =
     (case map_of (trail (run env n s0 doc0)) Send_to_Dead_Letter_Queue of
        None \<Rightarrow> [] | Some doc \<Rightarrow> [JObj doc])"
  by (simp add: dlq_trail filter_distinct_fst [OF trail_distinct] split: option.splits)

lemma run_timesEntered:
  "timesEntered s (run env n s0 doc0) =
     (case map_of (trail (run env n s0 doc0)) s of None \<Rightarrow> 0 | Some doc \<Rightarrow> 1)"
  by (simp add: timesEntered_def filter_distinct_fst [OF trail_distinct] split: option.splits)

lemma sum_distinct_fst:
  "distinct (map fst xs) \<Longrightarrow>
   sum_list (map (\<lambda>x. if fst x = s then f (snd x) else 0) xs) =
     (case map_of xs s of None \<Rightarrow> (0::nat) | Some d \<Rightarrow> f d)"
proof (induction xs)
  case Nil
  show ?case by simp
next
  case (Cons x xs)
  obtain a b where x: "x = (a, b)" by (cases x)
  from Cons.prems x have d: "distinct (map fst xs)" and n: "a \<notin> fst ` set xs" by simp_all
  note ih = Cons.IH [OF d]
  show ?case
  proof (cases "a = s")
    case True
    with n have "map_of xs s = None" by (simp add: map_of_eq_None_iff)
    with ih True x show ?thesis by simp
  next
    case False
    with ih x show ?thesis by simp
  qed
qed

lemma run_invocations:
  "catalogBuilderInvocations (run env n s0 doc0) =
     (case map_of (trail (run env n s0 doc0)) Add_to_catalog of
        None \<Rightarrow> 0
      | Some doc \<Rightarrow> snd (invokeWithRetry addToCatalogRetry (\<lambda>k. CatalogBuilder env k doc)))"
proof -
  let ?xs = "trail (run env n s0 doc0)"
  have "catalogBuilderInvocations (run env n s0 doc0) =
        sum_list (map (\<lambda>x. if fst x = Add_to_catalog then fst (addToCatalog env (snd x)) else 0) ?xs)"
    by (rule invocations_trail)
  also have "\<dots> = (case map_of ?xs Add_to_catalog of
                      None \<Rightarrow> 0 | Some d \<Rightarrow> fst (addToCatalog env d))"
    by (rule sum_distinct_fst [OF trail_distinct])
  finally show ?thesis by (simp add: addToCatalog_fst split: option.splits)
qed

lemma chain_following:
  "chain env xs \<Longrightarrow> map_of xs s = Some d \<Longrightarrow> fst (last xs) \<noteq> s \<Longrightarrow>
   \<exists>y. (case dropWhile (\<lambda>x. fst x \<noteq> s) xs of x # y # rest \<Rightarrow> Some y | _ \<Rightarrow> None) = Some y \<and>
       snd (step env s d) = Goto (fst y) (snd y)"
proof (induction env xs rule: chain.induct)
  case (1 env)
  then show ?case by simp
next
  case (2 env x)
  then show ?case by (cases x) (simp split: if_splits)
next
  case (3 env x y zs)
  show ?case
  proof (cases "fst x = s")
    case True
    from "3.prems" (1) have "snd (step env (fst x) (snd x)) = Goto (fst y) (snd y)" by simp
    moreover from "3.prems" (2) True have "snd x = d" by (cases x) simp
    ultimately show ?thesis using True by simp
  next
    case False
    from "3.prems" (1) have c: "chain env (y # zs)" by simp
    from "3.prems" (2) False have m: "map_of (y # zs) s = Some d" by (cases x) simp
    from "3.prems" (3) have l: "fst (last (y # zs)) \<noteq> s" by simp
    from "3.IH" [OF c m l] False show ?thesis by simp
  qed
qed

lemma run_following:
  assumes c: "status (run env n s0 doc0) \<noteq> TIMED_OUT"
    and t: "(s, doc) \<in> set (trail (run env n s0 doc0))"
    and g: "snd (step env s doc) = Goto s' doc'"
  shows "following s (run env n s0 doc0) = Some (s', doc')"
proof -
  let ?xs = "trail (run env n s0 doc0)"
  obtain m where n: "n = Suc m" using c by (cases n) auto
  have m: "map_of ?xs s = Some doc" using t trail_lookup by simp
  have ne: "?xs \<noteq> []" using t by auto
  have nt: "final (snd (step env (fst (last ?xs)) (snd (last ?xs)))) \<noteq> TIMED_OUT"
    using status_last [of env m s0 doc0] c n by simp
  have "fst (last ?xs) \<noteq> s"
  proof
    assume e: "fst (last ?xs) = s"
    have "last ?xs \<in> set ?xs" using ne by simp
    then have "(fst (last ?xs), snd (last ?xs)) \<in> set ?xs" by simp
    then have "(s, snd (last ?xs)) \<in> set ?xs" using e by simp
    then have "map_of ?xs s = Some (snd (last ?xs))" using trail_lookup by simp
    with m have "snd (last ?xs) = doc" by simp
    with e g nt show False by (simp add: final_def)
  qed
  from chain_following [OF trail_chain m this] g show ?thesis
    by (auto simp: following_def)
qed

lemma documentAt_trail:
  "(documentAt s (run env n s0 doc0) = Some doc) = ((s, doc) \<in> set (trail (run env n s0 doc0)))"
  by (simp add: documentAt_def trail_lookup)

lemma any_failure_results:
  assumes "(Any_Failure, doc) \<in> set (trail (run env n Track_Execution_Infos workItem))"
  shows "branchResults doc = fanOutResults (run env n Track_Execution_Infos workItem)"
proof -
  let ?run = "run env n Track_Execution_Infos workItem"
  obtain s d where t: "(s, d) \<in> set (trail ?run)"
    and g: "snd (step env s d) = Goto Any_Failure doc"
    using run_predecessor [OF assms] by auto
  have "\<exists>d0. (Any_Success, d0) \<in> set (trail ?run) \<and> branchResults doc = branchResults d0"
    using goto_Any_Failure [OF g]
  proof
    assume "s = Any_Success \<and> doc = d"
    with t show ?thesis by auto
  next
    assume a: "s = Add_to_catalog \<and> (\<exists>v. doc = resultPath ''catalogBuilderOutput'' v d)"
    then have b: "branchResults doc = branchResults d"
      by (auto simp: branchResults_other docGenResultsKey_def)
    from a t have "(Add_to_catalog, d) \<in> set (trail ?run)" by simp
    then obtain s2 d2 where t2: "(s2, d2) \<in> set (trail ?run)"
      and g2: "snd (step env s2 d2) = Goto Add_to_catalog d"
      using run_predecessor [of Add_to_catalog d env n Track_Execution_Infos workItem] by auto
    from goto_Add_to_catalog [OF g2] t2 have "(Any_Success, d) \<in> set (trail ?run)" by simp
    with b show ?thesis by auto
  qed
  then obtain d0 where "(Any_Success, d0) \<in> set (trail ?run)"
    and b: "branchResults doc = branchResults d0" by auto
  then have "documentAt Any_Success ?run = Some d0" by (simp add: documentAt_trail)
  with b show ?thesis by (simp add: fanOutResults_def)
qed

lemma any_failure_catalog_output:
  assumes t: "(Any_Failure, doc) \<in> set (trail (run env n Track_Execution_Infos workItem))"
    and a: "(Add_to_catalog, da) \<in> set (trail (run env n Track_Execution_Infos workItem))"
  shows "hasField ''catalogBuilderOutput'' (JObj doc)"
proof -
  let ?run = "run env n Track_Execution_Infos workItem"
  obtain s d where p: "(s, d) \<in> set (trail ?run)"
    and g: "snd (step env s d) = Goto Any_Failure doc"
    using run_predecessor [OF t] by auto
  from goto_Any_Failure [OF g] show ?thesis
  proof
    assume c: "s = Any_Success \<and> doc = d"
    obtain s2 d2 where p2: "(s2, d2) \<in> set (trail ?run)"
      and g2: "snd (step env s2 d2) = Goto Add_to_catalog da"
      using run_predecessor [OF a] by auto
    from goto_Add_to_catalog [OF g2] have s2: "s2 = Any_Success"
      and h: "holds anySuccessCondition (JObj d2)" by simp_all
    have "map_of (trail ?run) Any_Success = Some d" using p c trail_lookup by simp
    moreover have "map_of (trail ?run) Any_Success = Some d2" using p2 s2 trail_lookup by simp
    ultimately have "d2 = d" by simp
    with h g c show ?thesis by (simp add: anySuccess_def)
  next
    assume "s = Add_to_catalog \<and> (\<exists>v. doc = resultPath ''catalogBuilderOutput'' v d)"
    then show ?thesis by (auto simp: hasField_def resultPath_def update_conv')
  qed
qed

lemma any_failure_outcome:
  assumes r: "r = startExecution env budget workItem"
    and m: "documentAt Any_Failure r = Some doc"
    and c: "status r \<noteq> TIMED_OUT"
  shows "if list_ex (hasField ''error'') (branchResults doc)
         then dlq r = [JObj doc] \<and> status r = FAILED None
         else dlq r = [] \<and> status r = SUCCEEDED"
proof -
  let ?run = "run env budget Track_Execution_Infos workItem"
  have rr: "r = ?run" using r by (simp add: startExecution_def)
  have t: "(Any_Failure, doc) \<in> set (trail ?run)"
    using m documentAt_trail rr by simp
  have "fannedOut doc"
    using trail_fannedOut [of Any_Failure doc env budget workItem] t
    by (simp add: afterFanOut_def startExecution_def)
  then have iff: "holds anyFailureCondition (JObj doc) = list_ex (hasField ''error'') (branchResults doc)"
    by (simp add: anyFailure_iff fannedOut_def)
  show ?thesis
  proof (cases "list_ex (hasField ''error'') (branchResults doc)")
    case True
    then have "snd (step env Any_Failure doc) = Goto Send_to_Dead_Letter_Queue doc"
      using iff by (simp add: sendToDlqIfNeeded_def)
    then have s: "(Send_to_Dead_Letter_Queue, doc) \<in> set (trail ?run)"
      using run_successor [of env budget Track_Execution_Infos workItem Any_Failure doc] c t rr
      by simp
    have "snd (step env Send_to_Dead_Letter_Queue doc) = Goto Fail doc"
      by (simp add: sendToDeadLetterQueue_def)
    then have "(Fail, doc) \<in> set (trail ?run)"
      using run_successor [of env budget Track_Execution_Infos workItem Send_to_Dead_Letter_Queue doc]
        c s rr by simp
    then have "status ?run = final (snd (step env Fail doc))"
      by (rule run_terminal) simp
    moreover have "map_of (trail ?run) Send_to_Dead_Letter_Queue = Some doc"
      using s trail_lookup by simp
    ultimately show ?thesis using True rr by (simp add: run_dlq final_def)
  next
    case False
    then have "snd (step env Any_Failure doc) = Goto Success doc"
      using iff by (simp add: sendToDlqIfNeeded_def)
    then have "(Success, doc) \<in> set (trail ?run)"
      using run_successor [of env budget Track_Execution_Infos workItem Any_Failure doc] c t rr
      by simp
    then have st: "status ?run = final (snd (step env Success doc))"
      by (rule run_terminal) simp
    have "map_of (trail ?run) Send_to_Dead_Letter_Queue = None"
    proof (cases "map_of (trail ?run) Send_to_Dead_Letter_Queue")
      case (Some doc')
      then have s: "(Send_to_Dead_Letter_Queue, doc') \<in> set (trail ?run)"
        using trail_lookup by simp
      have "snd (step env Send_to_Dead_Letter_Queue doc') = Goto Fail doc'"
        by (simp add: sendToDeadLetterQueue_def)
      then have "(Fail, doc') \<in> set (trail ?run)"
        using run_successor [of env budget Track_Execution_Infos workItem
            Send_to_Dead_Letter_Queue doc'] c s rr by simp
      then have "status ?run = final (snd (step env Fail doc'))"
        by (rule run_terminal) simp
      with st show ?thesis by (simp add: final_def)
    qed simp
    with st False rr show ?thesis by (simp add: run_dlq final_def)
  qed
qed

lemma dlq_not_succeeded:
  assumes "dlq (run env n s0 doc0) \<noteq> []"
  shows "status (run env n s0 doc0) \<noteq> SUCCEEDED"
proof
  assume su: "status (run env n s0 doc0) = SUCCEEDED"
  from assms obtain doc where "map_of (trail (run env n s0 doc0)) Send_to_Dead_Letter_Queue = Some doc"
    by (auto simp: run_dlq split: option.splits)
  then have s: "(Send_to_Dead_Letter_Queue, doc) \<in> set (trail (run env n s0 doc0))"
    using trail_lookup by simp
  have "snd (step env Send_to_Dead_Letter_Queue doc) = Goto Fail doc"
    by (simp add: sendToDeadLetterQueue_def)
  then have "(Fail, doc) \<in> set (trail (run env n s0 doc0))"
    using run_successor [of env n s0 doc0 Send_to_Dead_Letter_Queue doc] s su by simp
  then have "status (run env n s0 doc0) = final (snd (step env Fail doc))"
    by (rule run_terminal) simp
  with su show False by (simp add: final_def)
qed

lemma failed_has_message:
  assumes "status (run env n Track_Execution_Infos workItem) = FAILED None"
  shows "\<exists>doc. dlq (run env n Track_Execution_Infos workItem) = [JObj doc]"
proof -
  let ?run = "run env n Track_Execution_Infos workItem"
  obtain m where n: "n = Suc m" using assms by (cases n) auto
  obtain rest where tr: "trail ?run = (Track_Execution_Infos, workItem) # rest"
    using trail_Suc n by blast
  let ?l = "last (trail ?run)"
  have l: "?l \<in> set (trail ?run)" using tr by (metis last_in_set list.distinct(1))
  have "final (snd (step env (fst ?l) (snd ?l))) = FAILED None"
    using status_last [of env m Track_Execution_Infos workItem] assms n by simp
  then have "snd (step env (fst ?l) (snd ?l)) = End_Fail"
    by (cases "snd (step env (fst ?l) (snd ?l))") (simp_all add: final_def)
  then have "fst ?l = Fail" by (rule end_Fail)
  with l have "(Fail, snd ?l) \<in> set (trail ?run)" by (metis prod.collapse)
  then obtain s doc where t: "(s, doc) \<in> set (trail ?run)"
    and g: "snd (step env s doc) = Goto Fail (snd ?l)"
    using run_predecessor [of Fail "snd ?l" env n Track_Execution_Infos workItem] by auto
  from goto_Fail [OF g] t have "(Send_to_Dead_Letter_Queue, doc) \<in> set (trail ?run)" by simp
  then have "map_of (trail ?run) Send_to_Dead_Letter_Queue = Some doc"
    using trail_lookup by simp
  then show ?thesis by (simp add: run_dlq)
qed

declare retryLoop.simps [simp del]

lemma retryLoop_Inr:
  "invoke k = Inr payload \<Longrightarrow> retryLoop rs invoke k = (Inr payload, Suc k)"
  by (simp add: retryLoop.simps)

lemma retryLoop_stop:
  "invoke k = Inl e \<Longrightarrow> useRetrier rs (Error e) = None \<Longrightarrow>
   retryLoop rs invoke k = (Inl e, Suc k)"
  by (simp add: retryLoop.simps)

lemma retryLoop_again:
  "invoke k = Inl e \<Longrightarrow> useRetrier rs (Error e) = Some rs' \<Longrightarrow>
   retryLoop rs invoke k = retryLoop rs' invoke (Suc k)"
  by (simp add: retryLoop.simps)

lemma useRetrier_less:
  "useRetrier rs e = Some rs' \<Longrightarrow> Suc (sum_list (map snd rs')) = sum_list (map snd rs)"
proof (induction rs arbitrary: rs')
  case Nil
  then show ?case by simp
next
  case (Cons r rs)
  then show ?case by (cases r) (auto split: if_splits nat.splits)
qed

lemma retryLoop_bound:
  "k < snd (retryLoop rs invoke k) \<and>
   snd (retryLoop rs invoke k) \<le> Suc (k + sum_list (map snd rs))"
proof (induction rs invoke k rule: retryLoop.induct)
  case (1 rs invoke k)
  show ?case
  proof (cases "invoke k")
    case (Inr payload)
    then show ?thesis by (simp add: retryLoop_Inr)
  next
    case (Inl e)
    show ?thesis
    proof (cases "useRetrier rs (Error e)")
      case None
      with Inl show ?thesis by (simp add: retryLoop_stop)
    next
      case (Some rs')
      with Inl "1.IH" [of e rs'] useRetrier_less [OF Some] show ?thesis
        by (simp add: retryLoop_again)
    qed
  qed
qed




lemma sameFields_resultPath:
  "k \<in> set resultKeys \<Longrightarrow> sameFields workItem doc \<Longrightarrow> sameFields workItem (resultPath k v doc)"
  by (auto simp: sameFields_def resultPath_def update_conv')

lemma sameFields_step:
  assumes "beforeRouting s \<longrightarrow> sameFields workItem doc"
    and "snd (step env s doc) = Goto s' doc'"
  shows "beforeRouting s' \<longrightarrow> sameFields workItem doc'"
proof (cases s)
  case Track_Execution_Infos
  with assms show ?thesis
    by (auto simp: trackExecutionInfos_def beforeRouting_def resultKeys_def
          intro!: sameFields_resultPath)
next
  case DocGen
  with assms show ?thesis
    using docGen_Goto [of env doc s' doc']
    by (auto simp: beforeRouting_def resultKeys_def intro!: sameFields_resultPath)
next
  case Any_Success
  with assms show ?thesis
    using anySuccess_Goto [of doc s' doc'] by (auto simp: beforeRouting_def)
next
  case Add_to_catalog
  with assms show ?thesis
    using addToCatalog_Goto [of env doc s' doc']
    by (auto simp: beforeRouting_def resultKeys_def intro!: sameFields_resultPath)
next
  case Failed_to_add_to_catalog
  with assms show ?thesis
    using failedToAddToCatalog_Goto [of env doc s' doc'] by (auto simp: beforeRouting_def)
next
  case Any_Failure
  with assms show ?thesis
    using sendToDlqIfNeeded_Goto [of doc s' doc']
    by (auto simp: beforeRouting_def split: if_splits)
qed (use assms in \<open>auto simp: sendToDeadLetterQueue_def beforeRouting_def\<close>)

lemma trail_sameFields:
  assumes "(s, doc) \<in> set (trail (run env budget Track_Execution_Infos workItem))"
    and "beforeRouting s"
  shows "sameFields workItem doc"
proof -
  have "beforeRouting (fst (s, doc)) \<longrightarrow> sameFields workItem (snd (s, doc))"
  proof (rule trail_invariant [where I = "\<lambda>s doc. beforeRouting s \<longrightarrow> sameFields workItem doc"])
    show "beforeRouting Track_Execution_Infos \<longrightarrow> sameFields workItem workItem"
      by (simp add: sameFields_def)
    show "(s, doc) \<in> set (trail (run env budget Track_Execution_Infos workItem))"
      by (rule assms(1))
  qed (rule sameFields_step)
  with assms(2) show ?thesis by simp
qed

lemma acknowledged_split:
  "length (acknowledged start k ms) + length (notAcknowledged start k ms) = length ms"
  by (induction ms arbitrary: k) auto

lemma redriveMessages_result:
  "started (redriveMessages start ms st) = started st @ map originalInput ms \<and>
   inQueue (redriveMessages start ms st) =
     inQueue st @ notAcknowledged start (attempted (counts st)) ms \<and>
   attempted (counts (redriveMessages start ms st)) = attempted (counts st) + length ms \<and>
   failed (counts (redriveMessages start ms st)) =
     failed (counts st) + length (notAcknowledged start (attempted (counts st)) ms) \<and>
   succeeded (counts (redriveMessages start ms st)) =
     succeeded (counts st) + length (acknowledged start (attempted (counts st)) ms)"
proof (induction ms arbitrary: st)
  case Nil
  show ?case by simp
next
  case (Cons m ms)
  show ?case
    by (simp add: Let_def Cons.IH)
qed

section \<open>The claims\<close>

text \<open>
  C1. In every execution the task \<^verbatim>\<open>Add to catalog.json\<close> (the catalog update) is entered
  exactly once when at least one branch result has a \<^verbatim>\<open>success\<close> field, and never when
  no branch result has one: \<^verbatim>\<open>Any Success?\<close> then goes straight to \<^verbatim>\<open>Any Failure?\<close>.
  The branch results of an execution are those of the document with which it entered
  \<^verbatim>\<open>Any Success?\<close>; "exactly once" is about executions that the one-hour timeout does
  not stop, "never" about all, and no execution enters the task twice (inside the task,
  its retriers may invoke the function several times).

  The catalog builder function is invoked by this task alone. In an execution without a
  success it is never invoked, and the state entered after \<^verbatim>\<open>Any Success?\<close> is
  \<^verbatim>\<open>Any Failure?\<close>, with the same document. In an execution with a success, the state
  entered after \<^verbatim>\<open>Any Success?\<close> is the task, with the same document; the function is
  invoked with that document, at least once and as often as the retriers of the task
  make it; and the outcome of the last invocation decides what follows the task: the
  handler \<^verbatim>\<open>Failed to add to catalog.json\<close> with the error output after an error,
  \<^verbatim>\<open>Any Failure?\<close> with the selected result under \<^verbatim>\<open>$.catalogBuilderOutput\<close> after a
  payload that has the two selected fields.
\<close>

theorem catalog_update_once:
  assumes r: "r = startExecution env budget workItem"
  shows "(list_ex (hasField ''success'') (fanOutResults r) \<and> status r \<noteq> TIMED_OUT \<longrightarrow>
            timesEntered Add_to_catalog r = 1) \<and>
         (\<not> list_ex (hasField ''success'') (fanOutResults r) \<longrightarrow>
            timesEntered Add_to_catalog r = 0) \<and>
         timesEntered Add_to_catalog r \<le> 1 \<and>
         (\<not> list_ex (hasField ''success'') (fanOutResults r) \<longrightarrow>
            catalogBuilderInvocations r = 0) \<and>
         (\<forall>doc. documentAt Any_Success r = Some doc \<and> status r \<noteq> TIMED_OUT \<longrightarrow>
            (if list_ex (hasField ''success'') (fanOutResults r)
             then following Any_Success r = Some (Add_to_catalog, doc) \<and>
                  catalogBuilderInvocations r =
                    snd (invokeWithRetry addToCatalogRetry (\<lambda>k. CatalogBuilder env k doc)) \<and>
                  1 \<le> catalogBuilderInvocations r \<and>
                  (case fst (invokeWithRetry addToCatalogRetry (\<lambda>k. CatalogBuilder env k doc)) of
                     Inl e \<Rightarrow>
                       following Add_to_catalog r = Some (Failed_to_add_to_catalog, errorOutput e)
                   | Inr payload \<Rightarrow>
                       (\<forall>etag version.
                          select [Key ''ETag''] payload = Some etag \<and>
                          select [Key ''VersionId''] payload = Some version \<longrightarrow>
                          following Add_to_catalog r =
                            Some (Any_Failure,
                                  resultPath ''catalogBuilderOutput''
                                    (JObj [(''ETag'', etag), (''VersionId'', version)]) doc)))
             else following Any_Success r = Some (Any_Failure, doc) \<and>
                  timesEntered Add_to_catalog r = 0))"
proof -
  let ?run = "run env budget Track_Execution_Infos workItem"
  let ?success = "list_ex (hasField ''success'') (fanOutResults r)"
  have rr: "r = ?run" using r by (simp add: startExecution_def)
  have none: "map_of (trail ?run) Add_to_catalog = None" if n: "\<not> ?success"
  proof (cases "map_of (trail ?run) Add_to_catalog")
    case None
    then show ?thesis .
  next
    case (Some doc')
    then have "(Add_to_catalog, doc') \<in> set (trail ?run)"
      using trail_lookup by simp
    then obtain s doc where t: "(s, doc) \<in> set (trail ?run)"
      and g: "snd (step env s doc) = Goto Add_to_catalog doc'"
      using run_predecessor [of Add_to_catalog doc' env budget Track_Execution_Infos workItem]
      by auto
    from goto_Add_to_catalog [OF g]
    have s: "s = Any_Success" and h: "holds anySuccessCondition (JObj doc)" by simp_all
    have "fannedOut doc"
      using trail_fannedOut [of Any_Success doc env budget workItem] t s
      by (simp add: afterFanOut_def startExecution_def)
    then have "list_ex (hasField ''success'') (branchResults doc)"
      using h by (simp add: anySuccess_iff)
    moreover have "documentAt Any_Success r = Some doc"
      using t s documentAt_trail rr by simp
    ultimately show ?thesis using n by (simp add: fanOutResults_def)
  qed
  have after: "following Any_Success r =
                 Some (if ?success then Add_to_catalog else Any_Failure, doc) \<and>
               (?success \<longrightarrow> (Add_to_catalog, doc) \<in> set (trail ?run))"
    if m: "documentAt Any_Success r = Some doc" and c: "status r \<noteq> TIMED_OUT" for doc
  proof -
    have c': "status ?run \<noteq> TIMED_OUT" using c rr by simp
    have t: "(Any_Success, doc) \<in> set (trail ?run)"
      using m documentAt_trail rr by simp
    have "fannedOut doc"
      using trail_fannedOut [of Any_Success doc env budget workItem] t
      by (simp add: afterFanOut_def startExecution_def)
    then have "holds anySuccessCondition (JObj doc) = ?success"
      using m by (simp add: anySuccess_iff fanOutResults_def)
    then have g: "snd (step env Any_Success doc) =
                    Goto (if ?success then Add_to_catalog else Any_Failure) doc"
      by (simp add: anySuccess_def)
    from run_following [OF c' t g] run_successor [OF c' t g] rr show ?thesis
      by (cases ?success) simp_all
  qed
  have entered: "timesEntered Add_to_catalog r = 1 \<and>
                 catalogBuilderInvocations r =
                   snd (invokeWithRetry addToCatalogRetry (\<lambda>k. CatalogBuilder env k doc))"
    if t: "(Add_to_catalog, doc) \<in> set (trail ?run)" for doc
  proof -
    from t have "map_of (trail ?run) Add_to_catalog = Some doc"
      using trail_lookup by simp
    then show ?thesis using rr by (simp add: run_timesEntered run_invocations)
  qed
  have once: "timesEntered Add_to_catalog r = 1" if s: "?success" and c: "status r \<noteq> TIMED_OUT"
  proof -
    from s obtain doc where m: "documentAt Any_Success r = Some doc"
      by (cases "documentAt Any_Success r") (auto simp: fanOutResults_def)
    from after [OF m c] s have "(Add_to_catalog, doc) \<in> set (trail ?run)" by simp
    from entered [OF this] show ?thesis by simp
  qed
  have outcome: "case fst (invokeWithRetry addToCatalogRetry (\<lambda>k. CatalogBuilder env k doc)) of
                   Inl e \<Rightarrow>
                     following Add_to_catalog r = Some (Failed_to_add_to_catalog, errorOutput e)
                 | Inr payload \<Rightarrow>
                     (\<forall>etag version.
                        select [Key ''ETag''] payload = Some etag \<and>
                        select [Key ''VersionId''] payload = Some version \<longrightarrow>
                        following Add_to_catalog r =
                          Some (Any_Failure,
                                resultPath ''catalogBuilderOutput''
                                  (JObj [(''ETag'', etag), (''VersionId'', version)]) doc))"
    if t: "(Add_to_catalog, doc) \<in> set (trail ?run)" and c: "status r \<noteq> TIMED_OUT" for doc
  proof -
    have c': "status ?run \<noteq> TIMED_OUT" using c rr by simp
    have f: "snd (step env Add_to_catalog doc) = Goto s' doc' \<Longrightarrow>
             following Add_to_catalog r = Some (s', doc')" for s' doc'
      using run_following [OF c' t] rr by simp
    show ?thesis
    proof (cases "fst (invokeWithRetry addToCatalogRetry (\<lambda>k. CatalogBuilder env k doc))")
      case (Inl e)
      then have "snd (step env Add_to_catalog doc) = Goto Failed_to_add_to_catalog (errorOutput e)"
        by (simp add: addToCatalog_snd)
      from f [OF this] Inl show ?thesis by simp
    next
      case (Inr payload)
      have "following Add_to_catalog r =
              Some (Any_Failure,
                    resultPath ''catalogBuilderOutput''
                      (JObj [(''ETag'', etag), (''VersionId'', version)]) doc)"
        if "select [Key ''ETag''] payload = Some etag"
          and "select [Key ''VersionId''] payload = Some version" for etag version
      proof -
        from that Inr have "snd (step env Add_to_catalog doc) =
            Goto Any_Failure
              (resultPath ''catalogBuilderOutput''
                 (JObj [(''ETag'', etag), (''VersionId'', version)]) doc)"
          by (simp add: addToCatalog_snd del: select.simps)
        from f [OF this] show ?thesis .
      qed
      with Inr show ?thesis by simp
    qed
  qed
  have least: "1 \<le> snd (invokeWithRetry addToCatalogRetry (\<lambda>k. CatalogBuilder env k doc))"
    for doc
    using retryLoop_bound
      [of 0 "[retrier lambdaInvokeRetry, retrier addToCatalogRetry]" "\<lambda>k. CatalogBuilder env k doc"]
    by (simp add: invokeWithRetry_def)
  show ?thesis
  proof (intro conjI impI allI)
    assume "?success \<and> status r \<noteq> TIMED_OUT"
    then show "timesEntered Add_to_catalog r = 1" using once by simp
  next
    assume "\<not> ?success"
    from none [OF this] show "timesEntered Add_to_catalog r = 0"
      using rr by (simp add: run_timesEntered)
  next
    show "timesEntered Add_to_catalog r \<le> 1"
      using rr by (simp add: run_timesEntered split: option.splits)
  next
    assume "\<not> ?success"
    from none [OF this] show "catalogBuilderInvocations r = 0"
      using rr by (simp add: run_invocations)
  next
    fix doc
    assume a: "documentAt Any_Success r = Some doc \<and> status r \<noteq> TIMED_OUT"
    then have m: "documentAt Any_Success r = Some doc" and c: "status r \<noteq> TIMED_OUT"
      by simp_all
    show "if ?success
          then following Any_Success r = Some (Add_to_catalog, doc) \<and>
               catalogBuilderInvocations r =
                 snd (invokeWithRetry addToCatalogRetry (\<lambda>k. CatalogBuilder env k doc)) \<and>
               1 \<le> catalogBuilderInvocations r \<and>
               (case fst (invokeWithRetry addToCatalogRetry (\<lambda>k. CatalogBuilder env k doc)) of
                  Inl e \<Rightarrow>
                    following Add_to_catalog r = Some (Failed_to_add_to_catalog, errorOutput e)
                | Inr payload \<Rightarrow>
                    (\<forall>etag version.
                       select [Key ''ETag''] payload = Some etag \<and>
                       select [Key ''VersionId''] payload = Some version \<longrightarrow>
                       following Add_to_catalog r =
                         Some (Any_Failure,
                               resultPath ''catalogBuilderOutput''
                                 (JObj [(''ETag'', etag), (''VersionId'', version)]) doc)))
          else following Any_Success r = Some (Any_Failure, doc) \<and>
               timesEntered Add_to_catalog r = 0"
    proof (cases ?success)
      case True
      with after [OF m c] have f: "following Any_Success r = Some (Add_to_catalog, doc)"
        and t: "(Add_to_catalog, doc) \<in> set (trail ?run)" by simp_all
      from entered [OF t] have i: "catalogBuilderInvocations r =
          snd (invokeWithRetry addToCatalogRetry (\<lambda>k. CatalogBuilder env k doc))" by simp
      from True f i least [of doc] outcome [OF t c] show ?thesis by simp
    next
      case False
      with after [OF m c] have f: "following Any_Success r = Some (Any_Failure, doc)" by simp
      from none [OF False] have "timesEntered Add_to_catalog r = 0"
        using rr by (simp add: run_timesEntered)
      with False f show ?thesis by simp
    qed
  qed
qed

text \<open>
  The two cases at the scenarios "one branch fails" and "both branches fail". In the
  first the function is invoked once and \<^verbatim>\<open>Any Failure?\<close> follows the task; in the second
  it is not invoked and \<^verbatim>\<open>Any Failure?\<close> follows \<^verbatim>\<open>Any Success?\<close>.
\<close>

theorem catalog_update_once_witness:
  "list_ex (hasField ''success'') (fanOutResults partialFailure) \<and>
   status partialFailure \<noteq> TIMED_OUT \<and>
   timesEntered Add_to_catalog partialFailure = 1 \<and>
   map_option fst (following Any_Success partialFailure) = Some Add_to_catalog \<and>
   map_option snd (following Any_Success partialFailure) = documentAt Any_Success partialFailure \<and>
   catalogBuilderInvocations partialFailure = 1 \<and>
   map_option fst (following Add_to_catalog partialFailure) = Some Any_Failure \<and>
   \<not> list_ex (hasField ''success'') (fanOutResults totalFailure) \<and>
   status totalFailure \<noteq> TIMED_OUT \<and>
   timesEntered Add_to_catalog totalFailure = 0 \<and>
   catalogBuilderInvocations totalFailure = 0 \<and>
   map_option fst (following Any_Success totalFailure) = Some Any_Failure \<and>
   map_option snd (following Any_Success totalFailure) = documentAt Any_Success totalFailure"
proof -
  have a: "list_ex (hasField ''success'') (fanOutResults partialFailure) \<and>
           status partialFailure \<noteq> TIMED_OUT"
    by code_simp
  have b: "\<not> list_ex (hasField ''success'') (fanOutResults totalFailure) \<and>
           status totalFailure \<noteq> TIMED_OUT"
    by code_simp
  obtain d where d: "documentAt Any_Success partialFailure = Some d"
    using a by (cases "documentAt Any_Success partialFailure") (auto simp: fanOutResults_def)
  have "documentAt Any_Success totalFailure \<noteq> None" by code_simp
  then obtain d' where d': "documentAt Any_Success totalFailure = Some d'" by auto
  have i: "invokeWithRetry addToCatalogRetry (\<lambda>k. CatalogBuilder envTypescriptFails k d) =
             (Inr catalogPayload, 1)"
    by (simp add: invokeWithRetry_def envTypescriptFails_def envAllSucceed_def retryLoop_Inr)
  have p: "select [Key ''ETag''] catalogPayload = Some (JStr ''etag-1'') \<and>
           select [Key ''VersionId''] catalogPayload = Some (JStr ''v1'')"
    by code_simp
  show ?thesis
    using a b d d' i p catalog_update_once [OF partialFailure_def]
      catalog_update_once [OF totalFailure_def]
    by simp
qed

text \<open>
  C2. At the stage DlqCheck, the choice \<^verbatim>\<open>Any Failure?\<close>, of every execution that
  reaches it and is not stopped by the timeout: the document there holds the branch
  results, every field of the work item outside the states' result keys, and the result
  of the catalog update when that task was entered; if a branch result has an \<^verbatim>\<open>error\<close>
  field, this whole document is the one message delivered to the dead letter queue and
  the execution ends Failed; if none has, nothing is delivered and the execution ends in
  Success.
\<close>

theorem dlq_check_routes_document:
  assumes "r = startExecution env budget workItem"
    and "documentAt Any_Failure r = Some doc"
    and "status r \<noteq> TIMED_OUT"
  shows "branchResults doc = fanOutResults r \<and> sameFields workItem doc \<and>
         (timesEntered Add_to_catalog r = 1 \<longrightarrow> hasField ''catalogBuilderOutput'' (JObj doc)) \<and>
         (if list_ex (hasField ''error'') (fanOutResults r)
          then dlq r = [JObj doc] \<and> status r = FAILED None
          else dlq r = [] \<and> status r = SUCCEEDED)"
proof -
  let ?run = "run env budget Track_Execution_Infos workItem"
  have rr: "r = ?run" using assms(1) by (simp add: startExecution_def)
  have t: "(Any_Failure, doc) \<in> set (trail ?run)"
    using assms(2) documentAt_trail rr by simp
  have b: "branchResults doc = fanOutResults r"
    using any_failure_results [OF t] rr by simp
  have f: "sameFields workItem doc"
    using t by (rule trail_sameFields) (simp add: beforeRouting_def)
  have c: "hasField ''catalogBuilderOutput'' (JObj doc)" if "timesEntered Add_to_catalog r = 1"
  proof -
    from that obtain da where "map_of (trail ?run) Add_to_catalog = Some da"
      using rr by (auto simp: run_timesEntered split: option.splits)
    then have "(Add_to_catalog, da) \<in> set (trail ?run)"
      using trail_lookup by simp
    with t show ?thesis by (rule any_failure_catalog_output)
  qed
  from b f c any_failure_outcome [OF assms] show ?thesis by simp
qed

text \<open>The two cases at the scenarios "one branch fails" and "both branches succeed".\<close>

theorem dlq_check_routes_document_witness:
  "documentAt Any_Failure partialFailure \<noteq> None \<and>
   status partialFailure \<noteq> TIMED_OUT \<and>
   list_ex (hasField ''error'') (fanOutResults partialFailure) \<and>
   dlq partialFailure = [JObj (the (documentAt Any_Failure partialFailure))] \<and>
   status partialFailure = FAILED None \<and>
   timesEntered Add_to_catalog partialFailure = 1 \<and>
   hasField ''catalogBuilderOutput'' (JObj (the (documentAt Any_Failure partialFailure))) \<and>
   documentAt Any_Failure allSucceed \<noteq> None \<and>
   \<not> list_ex (hasField ''error'') (fanOutResults allSucceed) \<and>
   dlq allSucceed = [] \<and>
   status allSucceed = SUCCEEDED"
proof -
  have a: "documentAt Any_Failure partialFailure \<noteq> None \<and>
           status partialFailure \<noteq> TIMED_OUT \<and>
           list_ex (hasField ''error'') (fanOutResults partialFailure) \<and>
           timesEntered Add_to_catalog partialFailure = 1"
    by code_simp
  have b: "documentAt Any_Failure allSucceed \<noteq> None \<and> status allSucceed \<noteq> TIMED_OUT \<and>
           \<not> list_ex (hasField ''error'') (fanOutResults allSucceed)"
    by code_simp
  have a': "documentAt Any_Failure partialFailure = Some (the (documentAt Any_Failure partialFailure))"
    using a by simp
  have b': "documentAt Any_Failure allSucceed = Some (the (documentAt Any_Failure allSucceed))"
    using b by simp
  show ?thesis
    using a b dlq_check_routes_document [OF partialFailure_def a']
      dlq_check_routes_document [OF allSucceed_def b']
    by simp
qed

text \<open>
  C3. The claim: whenever the catalog update fails after its retries, a structured
  cause is extracted from the failure text and attached to the document, a message is
  written to the dead letter queue, and only then the execution ends Failed, without
  reaching \<^verbatim>\<open>Any Failure?\<close>. The code at a catalog update that is throttled on every
  invocation: the text of the throttling error is not JSON, so the handler
  \<^verbatim>\<open>Failed to add to catalog.json\<close> fails on \<^verbatim>\<open>States.StringToJson\<close>; the execution ends
  Failed there, and nothing is written to the queue.
\<close>

theorem throttled_catalog_update_leaves_no_message:
  "invokeWithRetry addToCatalogRetry (\<lambda>k. CatalogBuilder envCatalogThrottled k exampleWorkItem) =
     (Inl throttled, 6) \<and>
   status (startExecution envCatalogThrottled 7 exampleWorkItem) =
     FAILED (Some ''States.IntrinsicFailure'') \<and>
   map fst (trail (startExecution envCatalogThrottled 7 exampleWorkItem)) =
     [Track_Execution_Infos, DocGen, Any_Success, Add_to_catalog, Failed_to_add_to_catalog] \<and>
   dlq (startExecution envCatalogThrottled 7 exampleWorkItem) = []"
  by code_simp

text \<open>
  C4, as the code has it. A message in the dead letter queue comes from the state
  \<^verbatim>\<open>Send to Dead Letter Queue\<close> alone, whose only successor is \<^verbatim>\<open>Fail\<close>: an execution
  that wrote a message entered that state once and does not end in Success, no execution
  writes more than one message, and every execution that ends in the state \<^verbatim>\<open>Fail\<close> wrote
  exactly one. The timeout is not routed to the queue: it stops the execution where it is.
\<close>

theorem message_only_from_send_state:
  assumes r: "r = startExecution env budget workItem"
  shows "(dlq r \<noteq> [] \<longrightarrow>
            status r \<noteq> SUCCEEDED \<and> timesEntered Send_to_Dead_Letter_Queue r = 1) \<and>
         (timesEntered Send_to_Dead_Letter_Queue r = 0 \<longrightarrow> dlq r = []) \<and>
         length (dlq r) \<le> 1 \<and>
         (status r = FAILED None \<longrightarrow> length (dlq r) = 1)"
proof (intro conjI impI)
  let ?run = "run env budget Track_Execution_Infos workItem"
  have rr: "r = ?run" using r by (simp add: startExecution_def)
  {
    assume d: "dlq r \<noteq> []"
    then show "status r \<noteq> SUCCEEDED"
      using dlq_not_succeeded [of env budget Track_Execution_Infos workItem] rr by simp
    show "timesEntered Send_to_Dead_Letter_Queue r = 1"
      using d rr by (simp add: run_dlq run_timesEntered split: option.splits)
  }
  {
    assume "timesEntered Send_to_Dead_Letter_Queue r = 0"
    then show "dlq r = []"
      using rr by (simp add: run_dlq run_timesEntered split: option.splits)
  }
  show "length (dlq r) \<le> 1"
    using rr by (simp add: run_dlq split: option.splits)
  {
    assume "status r = FAILED None"
    then show "length (dlq r) = 1"
      using failed_has_message [of env budget workItem] rr by auto
  }
qed

text \<open>The scenario "one branch fails" has a message and ends in \<^verbatim>\<open>Fail\<close>; the scenario
  "both branches succeed" has none.\<close>

theorem message_only_from_send_state_witness:
  "dlq partialFailure \<noteq> [] \<and> status partialFailure = FAILED None \<and>
   status partialFailure \<noteq> SUCCEEDED \<and>
   timesEntered Send_to_Dead_Letter_Queue partialFailure = 1 \<and>
   length (dlq partialFailure) = 1 \<and>
   timesEntered Send_to_Dead_Letter_Queue allSucceed = 0 \<and> dlq allSucceed = []"
proof -
  have a: "dlq partialFailure \<noteq> [] \<and> status partialFailure = FAILED None"
    by code_simp
  have b: "timesEntered Send_to_Dead_Letter_Queue allSucceed = 0"
    by code_simp
  show ?thesis
    using a b message_only_from_send_state [OF partialFailure_def]
      message_only_from_send_state [OF allSucceed_def]
    by simp
qed

text \<open>
  C4 as stated fails: the execution of the scenario "one branch fails" with time for four
  states only is stopped by the timeout after \<^verbatim>\<open>Add to catalog.json\<close>. It does not end
  in Success, and no message is in the queue.
\<close>

theorem timed_out_without_message:
  "status (startExecution envTypescriptFails 4 exampleWorkItem) = TIMED_OUT \<and>
   map fst (trail (startExecution envTypescriptFails 4 exampleWorkItem)) =
     [Track_Execution_Infos, DocGen, Any_Success, Add_to_catalog] \<and>
   dlq (startExecution envTypescriptFails 4 exampleWorkItem) = []"
  by code_simp

text \<open>
  C5. The claim: a branch that exhausts its retries is caught and yields a branch result
  with an \<^verbatim>\<open>error\<close> field holding the parsed failure text; no branch's error fails the
  execution in the fan-out. The code at a Python branch that is throttled on all four
  invocations: the failure text is not JSON, the handler \<^verbatim>\<open>Failed python\<close> fails on
  \<^verbatim>\<open>States.StringToJson\<close>, and with it the \<^verbatim>\<open>Parallel\<close> state and the execution; no
  branch results exist and nothing is written to the queue.
\<close>

theorem throttled_branch_fails_execution:
  "invokeWithRetry docGenRetry (\<lambda>k. Transliterator envPythonThrottled PYTHON k exampleWorkItem) =
     (Inl throttled, 4) \<and>
   status (startExecution envPythonThrottled 7 exampleWorkItem) =
     FAILED (Some ''States.IntrinsicFailure'') \<and>
   map fst (trail (startExecution envPythonThrottled 7 exampleWorkItem)) =
     [Track_Execution_Infos, DocGen] \<and>
   dlq (startExecution envPythonThrottled 7 exampleWorkItem) = []"
  by code_simp




text \<open>
  C7. The claim: every execution that ends Failed wrote exactly one message to the dead
  letter queue, and the fields of the work item are in it as they were at the start,
  since no state modifies or removes a field of the work item. The code at the work
  item of the specification, when both branches succeed and the catalog builder function
  fails: the catcher of line 82 names no result path, so the error output replaces the
  document with which the task was entered; the handler
  \<^verbatim>\<open>Failed to add to catalog.json\<close> puts the parsed cause under \<^verbatim>\<open>$.error\<close> of that output, and
  the result is the message. The execution ends in \<^verbatim>\<open>Fail\<close> with one message, whose
  fields are \<^verbatim>\<open>Error\<close>, \<^verbatim>\<open>Cause\<close> and \<^verbatim>\<open>error\<close>: neither the package nor the version of the
  work item is in it, while they were in the document that entered the task. (Lines
  33-35 of the source say of the queue that inputs and errors are written there if the
  state machine fails.)
\<close>

theorem failed_catalog_update_drops_work_item:
  "keysOf (JObj exampleWorkItem) = [''pkg'', ''version''] \<and>
   status (startExecution envCatalogFails 7 exampleWorkItem) = FAILED None \<and>
   map fst (trail (startExecution envCatalogFails 7 exampleWorkItem)) =
     [Track_Execution_Infos, DocGen, Any_Success, Add_to_catalog, Failed_to_add_to_catalog,
      Send_to_Dead_Letter_Queue, Fail] \<and>
   map_option (\<lambda>doc. map (map_of doc) [''pkg'', ''version''])
     (documentAt Add_to_catalog (startExecution envCatalogFails 7 exampleWorkItem)) =
     Some [Some (JStr ''foo''), Some (JStr ''1.0.0'')] \<and>
   map keysOf (dlq (startExecution envCatalogFails 7 exampleWorkItem)) =
     [[''Error'', ''Cause'', ''error'']] \<and>
   map (select [Key ''pkg'']) (dlq (startExecution envCatalogFails 7 exampleWorkItem)) =
     [None] \<and>
   map (select [Key ''version'']) (dlq (startExecution envCatalogFails 7 exampleWorkItem)) =
     [None] \<and>
   map (select [Key ''error'', Key ''error'', Key ''errorMessage''])
     (dlq (startExecution envCatalogFails 7 exampleWorkItem)) = [Some (JStr ''boom'')]"
  by code_simp

text \<open>
  Beside C7: on the other way to \<^verbatim>\<open>Fail\<close>, through \<^verbatim>\<open>Any Failure?\<close>, the one message is the
  document of that state, which agrees with the work item on every key other than those
  under which the states store their results (\<^verbatim>\<open>$TaskExecution\<close>, \<^verbatim>\<open>DocGen\<close>,
  \<^verbatim>\<open>catalogBuilderOutput\<close>).
\<close>

lemma any_failure_message_keeps_work_item:
  assumes r: "r = startExecution env budget workItem" and f: "status r = FAILED None"
  shows "length (dlq r) = 1 \<and>
         (\<forall>doc. documentAt Any_Failure r = Some doc \<longrightarrow>
            dlq r = [JObj doc] \<and> sameFields workItem doc)"
proof (intro conjI allI impI)
  show "length (dlq r) = 1"
    using failed_has_message [of env budget workItem] r f
    by (auto simp: startExecution_def)
next
  fix doc
  assume m: "documentAt Any_Failure r = Some doc"
  have "status r \<noteq> TIMED_OUT" using f by simp
  from any_failure_outcome [OF r m this] f show "dlq r = [JObj doc]"
    by (simp split: if_splits)
  have "(Any_Failure, doc) \<in> set (trail (run env budget Track_Execution_Infos workItem))"
    using m r documentAt_trail by (simp add: startExecution_def)
  then show "sameFields workItem doc"
    by (rule trail_sameFields) (simp add: beforeRouting_def)
qed

text \<open>
  C8, as the code has it. The first state, \<^verbatim>\<open>Track Execution Infos\<close>, stores a record of
  four fields of the execution (\<^verbatim>\<open>Id\<close>, \<^verbatim>\<open>Name\<close>, \<^verbatim>\<open>RoleArn\<close>, \<^verbatim>\<open>StartTime\<close>) under the
  key \<^verbatim>\<open>$TaskExecution\<close> of the work item, leaves every other field as it was, and goes
  on to the fan-out whatever the work item is.
\<close>

theorem track_execution_infos_attaches:
  "\<exists>doc. trackExecutionInfos env workItem = Goto DocGen doc \<and>
     map_of doc =
       (map_of workItem)(''$TaskExecution'' \<mapsto>
          JObj [(''Id'', JStr (exec_Id (Execution env))),
                (''Name'', JStr (exec_Name (Execution env))),
                (''RoleArn'', JStr (exec_RoleArn (Execution env))),
                (''StartTime'', JStr (exec_StartTime (Execution env)))])"
  by (simp add: trackExecutionInfos_def resultPath_def update_conv')

text \<open>The record of the example execution.\<close>

theorem track_execution_infos_attaches_witness:
  "executionContext envAllSucceed exampleWorkItem =
     Some (JObj [(''Id'', JStr ''arn:aws:states:execution:1''), (''Name'', JStr ''run-1''),
                 (''RoleArn'', JStr ''arn:aws:iam:role''),
                 (''StartTime'', JStr ''2021-07-01T00:00:00Z'')])"
  using track_execution_infos_attaches [of envAllSucceed exampleWorkItem]
  by (auto simp: executionContext_def envAllSucceed_def exampleExecution_def)

text \<open>
  C8 as stated fails: the record has no field for a current stage and none for an
  elapsed-time budget. Its keys are these four.
\<close>

theorem execution_context_has_four_fields:
  "map_option keysOf (executionContext envAllSucceed exampleWorkItem) =
     Some [''Id'', ''Name'', ''RoleArn'', ''StartTime'']"
  by code_simp

text \<open>
  C9. The redrive operation calls \<^verbatim>\<open>start\<close> once for every message of the queue, in
  the order of the queue and with the original input of the message; the messages left
  in the queue are those whose start was not acknowledged, in their order; the counts
  are the number of messages, of acknowledged starts and of messages left.
\<close>

theorem redrive_starts_every_message:
  assumes "redrive start queue = r"
  shows "started r = map originalInput queue \<and>
         inQueue r = notAcknowledged start 0 queue \<and>
         attempted (counts r) = length queue \<and>
         succeeded (counts r) = length (acknowledged start 0 queue) \<and>
         failed (counts r) = length (inQueue r) \<and>
         succeeded (counts r) + failed (counts r) = attempted (counts r)"
  using redriveMessages_result [of start queue
      "\<lparr>counts = \<lparr>attempted = 0, succeeded = 0, failed = 0\<rparr>, inQueue = [], started = []\<rparr>"]
    assms acknowledged_split [of start 0 queue]
  by (auto simp: redrive_def)

text \<open>The scenario of the specification: three messages, the second start fails.\<close>

theorem redrive_starts_every_message_witness:
  "counts (redrive (\<lambda>k input. k \<noteq> 1) exampleQueue) =
     \<lparr>attempted = 3, succeeded = 2, failed = 1\<rparr> \<and>
   length (inQueue (redrive (\<lambda>k input. k \<noteq> 1) exampleQueue)) = 1 \<and>
   map originalInput (inQueue (redrive (\<lambda>k input. k \<noteq> 1) exampleQueue)) = [[(''pkg'', JStr ''b'')]] \<and>
   started (redrive (\<lambda>k input. k \<noteq> 1) exampleQueue) =
     [[(''pkg'', JStr ''a'')], [(''pkg'', JStr ''b'')], [(''pkg'', JStr ''c'')]]"
proof -
  have "notAcknowledged (\<lambda>k input. k \<noteq> 1) 0 exampleQueue =
          [\<lparr>originalInput = [(''pkg'', JStr ''b'')], cause = JNull, capturedAt = ''t2''\<rparr>]"
    and "length (acknowledged (\<lambda>k input. k \<noteq> 1) 0 exampleQueue) = 2"
    and "map originalInput exampleQueue =
          [[(''pkg'', JStr ''a'')], [(''pkg'', JStr ''b'')], [(''pkg'', JStr ''c'')]]"
    by (simp_all add: exampleQueue_def)
  then show ?thesis
    using redrive_starts_every_message [OF refl, of "\<lambda>k input. k \<noteq> 1" exampleQueue]
    by (simp add: exampleQueue_def)
qed

text \<open>
  C10. In every execution, the document with which \<^verbatim>\<open>Any Success?\<close> is entered has one
  branch result for each supported language; each has the field \<^verbatim>\<open>language\<close> and exactly
  one of the fields \<^verbatim>\<open>success\<close> and \<^verbatim>\<open>error\<close>. So the condition of \<^verbatim>\<open>Any Success?\<close>,
  which tests that an \<^verbatim>\<open>error\<close> field is absent, holds exactly when a branch result has a
  \<^verbatim>\<open>success\<close> field; and the condition of \<^verbatim>\<open>Any Failure?\<close>, on the document with which
  that state is entered, holds exactly when a branch result has an \<^verbatim>\<open>error\<close> field.
\<close>

theorem branch_results_tagged:
  assumes r: "r = startExecution env budget workItem"
  shows "(\<forall>doc. documentAt Any_Success r = Some doc \<longrightarrow>
            length (branchResults doc) = length SUPPORTED_LANGUAGES \<and>
            list_all (\<lambda>b. hasField ''language'' b \<and>
                          (hasField ''success'' b \<noteq> hasField ''error'' b)) (branchResults doc) \<and>
            holds anySuccessCondition (JObj doc) =
              list_ex (hasField ''success'') (branchResults doc)) \<and>
         (\<forall>doc. documentAt Any_Failure r = Some doc \<longrightarrow>
            branchResults doc = fanOutResults r \<and>
            holds anyFailureCondition (JObj doc) =
              list_ex (hasField ''error'') (fanOutResults r))"
proof (intro conjI allI impI)
  let ?run = "run env budget Track_Execution_Infos workItem"
  have rr: "r = ?run" using r by (simp add: startExecution_def)
  {
    fix doc
    assume "documentAt Any_Success r = Some doc"
    then have "(Any_Success, doc) \<in> set (trail ?run)"
      using documentAt_trail rr by simp
    then have f: "fannedOut doc"
      using trail_fannedOut [of Any_Success doc env budget workItem]
      by (simp add: afterFanOut_def startExecution_def)
    then show "length (branchResults doc) = length SUPPORTED_LANGUAGES"
      by (simp add: fannedOut_def)
    show "list_all (\<lambda>b. hasField ''language'' b \<and>
                          (hasField ''success'' b \<noteq> hasField ''error'' b)) (branchResults doc)"
      using f by (simp add: fannedOut_def list_all_iff tagged_def)
    show "holds anySuccessCondition (JObj doc) =
              list_ex (hasField ''success'') (branchResults doc)"
      using f by (rule anySuccess_iff)
  }
  {
    fix doc
    assume "documentAt Any_Failure r = Some doc"
    then have t: "(Any_Failure, doc) \<in> set (trail ?run)"
      using documentAt_trail rr by simp
    then show b: "branchResults doc = fanOutResults r"
      using any_failure_results rr by simp
    have "fannedOut doc"
      using trail_fannedOut [of Any_Failure doc env budget workItem] t
      by (simp add: afterFanOut_def startExecution_def)
    then show "holds anyFailureCondition (JObj doc) =
              list_ex (hasField ''error'') (fanOutResults r)"
      using b by (simp add: anyFailure_iff fannedOut_def)
  }
qed

text \<open>The scenario "one branch fails": two branch results, one of each kind, and both
  conditions hold.\<close>

theorem branch_results_tagged_witness:
  "documentAt Any_Success partialFailure \<noteq> None \<and>
   documentAt Any_Failure partialFailure \<noteq> None \<and>
   map keysOf (fanOutResults partialFailure) =
     [[''language'', ''success''], [''error'', ''language'']] \<and>
   length (branchResults (the (documentAt Any_Success partialFailure))) = 2 \<and>
   holds anySuccessCondition (JObj (the (documentAt Any_Success partialFailure))) \<and>
   holds anyFailureCondition (JObj (the (documentAt Any_Failure partialFailure)))"
proof -
  have a: "documentAt Any_Success partialFailure \<noteq> None \<and>
           documentAt Any_Failure partialFailure \<noteq> None"
    by code_simp
  have b: "map keysOf (fanOutResults partialFailure) =
             [[''language'', ''success''], [''error'', ''language'']]"
    by code_simp
  have c: "list_ex (hasField ''success'') (fanOutResults partialFailure) \<and>
           list_ex (hasField ''error'') (fanOutResults partialFailure)"
    by code_simp
  obtain ds where ds: "documentAt Any_Success partialFailure = Some ds"
    using a by auto
  obtain df where df: "documentAt Any_Failure partialFailure = Some df"
    using a by auto
  have fo: "fanOutResults partialFailure = branchResults ds"
    by (simp add: fanOutResults_def ds)
  have l: "length SUPPORTED_LANGUAGES = 2" by (simp add: SUPPORTED_LANGUAGES_def)
  from branch_results_tagged [OF partialFailure_def] ds df
  have "length (branchResults ds) = length SUPPORTED_LANGUAGES"
    and "holds anySuccessCondition (JObj ds) = list_ex (hasField ''success'') (branchResults ds)"
    and "holds anyFailureCondition (JObj df) =
           list_ex (hasField ''error'') (fanOutResults partialFailure)"
    by blast+
  then show ?thesis
    using a b c fo l by (simp add: ds df)
qed

end
